theory Spec2Isabelle
  imports Main "HOL-Library.Sublist" "HOL-Library.Word"
begin

section \<open>Errors and the log of external actions\<close>

text \<open>
  A thrown JavaScript error, as far as the program reads it: \<open>err.status\<close> (set by the
  generation client), \<open>err.response.status\<close> (set by the HTTP client) and the message.
  A field that is absent is \<open>None\<close>.
\<close>

record js_error =
  err_status :: "int option"
  err_response_status :: "int option"
  err_message :: string

text \<open>
  Everything the server does to the outside world is appended to a log, in order. The
  outcome of a remote call may depend on when it is made, so each service is a function
  of the number of events logged before the call. An upsert is logged with the ids of
  its points, a search with its limit, a generation call with model and prompt, a wait
  with its milliseconds.
\<close>

datatype event =
    RedisGet string
  | RedisSet string
  | EmbedPost "string list"
  | QdrantSearch nat
  | QdrantUpsert "128 word list"
  | Generate string string
  | Sleep nat

section \<open>Ingestion: the chunker\<close>

text \<open>
  A JavaScript string is a sequence of code units; \<open>text.length\<close> and \<open>text.slice\<close>
  count code units, so a text is a list over any element type. Numbers that the source
  computes with (cursor, chunk size, overlap, cap) are integers.
\<close>

text \<open>
  \<open>String.prototype.slice(start, end)\<close>: a negative argument counts from the end of
  the string, both ends are clamped to the string, and an end before the start gives
  the empty string.
\<close>

definition js_slice :: "'a list \<Rightarrow> int \<Rightarrow> int \<Rightarrow> 'a list" where
  "js_slice s start end =
     (let len = int (length s);
          from = (if start < 0 then max (len + start) 0 else min start len);
          to = (if end < 0 then max (len + end) 0 else min end len)
      in take (nat (max (to - from) 0)) (drop (nat from) s))"

text \<open>
  The loop of \<open>chunkText\<close>, with the cursor \<open>i\<close> and the array \<open>chunks\<close> as
  arguments:
  \<^verbatim>\<open>
  while (i < maxLen && chunks.length < maxChunks) {
    const end = Math.min(i + chunkSize, maxLen);
    chunks.push(text.slice(i, end));
    i = end - overlap;
    if (i < 0) i = 0;
  }
  return chunks;
  \<close>
\<close>

function chunkLoop :: "'a list \<Rightarrow> int \<Rightarrow> int \<Rightarrow> int \<Rightarrow> int \<Rightarrow> 'a list list \<Rightarrow> 'a list list" where
  "chunkLoop text chunkSize overlap maxChunks i chunks =
     (let maxLen = int (length text) in
      if i < maxLen \<and> int (length chunks) < maxChunks then
        (let end = min (i + chunkSize) maxLen;
             chunks' = chunks @ [js_slice text i end];
             i' = end - overlap;
             i'' = (if i' < 0 then 0 else i')
         in chunkLoop text chunkSize overlap maxChunks i'' chunks')
      else chunks)"
  by pat_completeness auto
termination
  by (relation "measure (\<lambda>(text, chunkSize, overlap, maxChunks, i, chunks).
        nat (maxChunks - int (length chunks)))") auto

declare chunkLoop.simps [simp del]

definition chunkText :: "'a list \<Rightarrow> int \<Rightarrow> int \<Rightarrow> int \<Rightarrow> 'a list list" where
  "chunkText text chunkSize overlap maxChunks = chunkLoop text chunkSize overlap maxChunks 0 []"

text \<open>
  The same loop, recording the span \<open>(i, end)\<close> of each chunk instead of its text.
\<close>

function spanLoop :: "int \<Rightarrow> int \<Rightarrow> int \<Rightarrow> int \<Rightarrow> int \<Rightarrow> (int \<times> int) list \<Rightarrow> (int \<times> int) list" where
  "spanLoop maxLen chunkSize overlap maxChunks i spans =
     (if i < maxLen \<and> int (length spans) < maxChunks then
        (let end = min (i + chunkSize) maxLen;
             spans' = spans @ [(i, end)];
             i' = end - overlap;
             i'' = (if i' < 0 then 0 else i')
         in spanLoop maxLen chunkSize overlap maxChunks i'' spans')
      else spans)"
  by pat_completeness auto
termination
  by (relation "measure (\<lambda>(maxLen, chunkSize, overlap, maxChunks, i, spans).
        nat (maxChunks - int (length spans)))") auto

declare spanLoop.simps [simp del]

definition chunkSpans :: "int \<Rightarrow> int \<Rightarrow> int \<Rightarrow> int \<Rightarrow> (int \<times> int) list" where
  "chunkSpans maxLen chunkSize overlap maxChunks = spanLoop maxLen chunkSize overlap maxChunks 0 []"

text \<open>
  The spans the loop produces from cursor \<open>i\<close> when at most \<open>n\<close> more chunks fit under
  the cap: the recursion of \<open>spanLoop\<close> with the remaining room as the counter.
\<close>

primrec spansFrom :: "int \<Rightarrow> int \<Rightarrow> int \<Rightarrow> int \<Rightarrow> nat \<Rightarrow> (int \<times> int) list" where
  "spansFrom maxLen chunkSize overlap i 0 = []"
| "spansFrom maxLen chunkSize overlap i (Suc n) =
     (if i < maxLen then
        (i, min (i + chunkSize) maxLen) #
          spansFrom maxLen chunkSize overlap
            (if min (i + chunkSize) maxLen - overlap < 0 then 0
             else min (i + chunkSize) maxLen - overlap) n
      else [])"

section \<open>Generation with retries and a fallback model\<close>

type_synonym gen_service = "nat \<Rightarrow> string \<Rightarrow> string \<Rightarrow> js_error + string"

text \<open>\<^verbatim>\<open>const status = err?.status || err?.response?.status;\<close>: the first operand wins
  unless it is absent or zero.\<close>

definition statusOf :: "js_error \<Rightarrow> int option" where
  "statusOf err =
     (case err_status err of
        Some s \<Rightarrow> if s \<noteq> 0 then Some s else err_response_status err
      | None \<Rightarrow> err_response_status err)"

definition retriable :: "int option \<Rightarrow> bool" where
  "retriable status \<longleftrightarrow>
     status = Some 429 \<or> status = Some 500 \<or> status = Some 502 \<or> status = Some 503 \<or> status = Some 504"

definition delays :: "nat list" where
  "delays = [400, 800, 1600, 3200]"

text \<open>
  The inner loop of \<open>generateWithRetries\<close> for one model, from attempt number \<open>attempt\<close>:
  \<^verbatim>\<open>
  for (let attempt = 0; attempt < maxAttempts; attempt++) {
    try {
      ... return result.response.text();
    } catch (err) {
      lastErr = err;
      const status = err?.status || err?.response?.status;
      const retriable = status === 429 || status === 500 || status === 502 || status === 503 || status === 504;
      if (!retriable) break;
      const wait = delays[Math.min(attempt, delays.length - 1)];
      await new Promise(r => setTimeout(r, wait));
    }
  }
  \<close>
  It returns the text when an attempt succeeds (\<open>Some\<close>), and otherwise \<open>None\<close> with the
  updated \<open>lastErr\<close>; in both cases with the extended log.
\<close>

function attemptLoop ::
  "gen_service \<Rightarrow> string \<Rightarrow> string \<Rightarrow> int \<Rightarrow> int \<Rightarrow> js_error option \<Rightarrow> event list
     \<Rightarrow> string option \<times> js_error option \<times> event list" where
  "attemptLoop genAI modelName prompt maxAttempts attempt lastErr log =
     (if attempt < maxAttempts then
        (case genAI (length log) modelName prompt of
           Inr text \<Rightarrow> (Some text, lastErr, log @ [Generate modelName prompt])
         | Inl err \<Rightarrow>
             (if \<not> retriable (statusOf err) then (None, Some err, log @ [Generate modelName prompt])
              else
                (let wait = delays ! nat (min attempt (int (length delays) - 1))
                 in attemptLoop genAI modelName prompt maxAttempts (attempt + 1) (Some err)
                      (log @ [Generate modelName prompt, Sleep wait]))))
      else (None, lastErr, log))"
  by pat_completeness auto
termination
  by (relation "measure (\<lambda>(genAI, modelName, prompt, maxAttempts, attempt, lastErr, log).
        nat (maxAttempts - attempt))") auto

declare attemptLoop.simps [simp del]

text \<open>
  The outer loop \<^verbatim>\<open>for (const modelName of modelsToTry)\<close>, and \<^verbatim>\<open>throw lastErr\<close> after
  it. The thrown value is \<open>lastErr\<close>, which is still \<open>undefined\<close> (\<open>None\<close>) when no
  attempt was made.
\<close>

fun modelLoop ::
  "gen_service \<Rightarrow> string list \<Rightarrow> string \<Rightarrow> int \<Rightarrow> js_error option \<Rightarrow> event list
     \<Rightarrow> (js_error option + string) \<times> event list" where
  "modelLoop genAI [] prompt maxAttempts lastErr log = (Inl lastErr, log)"
| "modelLoop genAI (modelName # rest) prompt maxAttempts lastErr log =
     (case attemptLoop genAI modelName prompt maxAttempts 0 lastErr log of
        (Some text, lastErr', log') \<Rightarrow> (Inr text, log')
      | (None, lastErr', log') \<Rightarrow> modelLoop genAI rest prompt maxAttempts lastErr' log')"

text \<open>
  \<open>generateWithRetries(genAI, primaryModel, prompt, maxAttempts = 4)\<close>; the constant
  \<open>GEMINI_FALLBACK_MODEL\<close> of the module is the parameter \<open>fallbackModel\<close>.
\<close>

definition generateWithRetries ::
  "gen_service \<Rightarrow> string \<Rightarrow> string \<Rightarrow> string \<Rightarrow> int \<Rightarrow> event list
     \<Rightarrow> (js_error option + string) \<times> event list" where
  "generateWithRetries genAI fallbackModel primaryModel prompt maxAttempts log =
     (let modelsToTry = [primaryModel, fallbackModel]
      in modelLoop genAI modelsToTry prompt maxAttempts None log)"

section \<open>The embedding client\<close>

text \<open>
  The reply of the embedding service to \<open>axios.post\<close>: no reply at all (a network
  error), or a status with a body. Of the body the program reads
  \<open>resp.data.data.map(d => d.embedding)\<close>: the array \<open>data\<close> may be missing, an entry may
  be \<open>null\<close>, and an entry may lack its \<open>embedding\<close> (then the result holds
  \<open>undefined\<close>, here \<open>None\<close>).
\<close>

datatype 'v embed_entry = NullEntry | Entry "'v option"

datatype 'v embed_body = NoData | Data "'v embed_entry list"

datatype 'v http_reply = NoReply | Reply int "'v embed_body"

type_synonym 'v embed_service = "nat \<Rightarrow> string list \<Rightarrow> 'v http_reply"

text \<open>
  Modelled from the documentation of the HTTP client, which is not part of the
  repository: \<open>axios.post\<close> rejects when no response arrives and, with the default
  \<open>validateStatus\<close>, when the status is outside \<open>200..299\<close>; the error then carries the
  status in \<open>err.response.status\<close>.
\<close>

definition axiosPost ::
  "'v embed_service \<Rightarrow> string list \<Rightarrow> event list \<Rightarrow> (js_error + 'v embed_body) \<times> event list" where
  "axiosPost jina texts log =
     (case jina (length log) texts of
        NoReply \<Rightarrow>
          (Inl \<lparr>err_status = None, err_response_status = None, err_message = ''Network Error''\<rparr>,
           log @ [EmbedPost texts])
      | Reply status body \<Rightarrow>
          (if 200 \<le> status \<and> status < 300 then (Inr body, log @ [EmbedPost texts])
           else
             (Inl \<lparr>err_status = None, err_response_status = Some status,
                   err_message = ''Request failed''\<rparr>,
              log @ [EmbedPost texts])))"

definition typeError :: js_error where
  "typeError = \<lparr>err_status = None, err_response_status = None, err_message = ''TypeError''\<rparr>"

text \<open>\<open>resp.data.data.map(d => d.embedding)\<close>: a \<open>TypeError\<close> when \<open>data\<close> is missing or an
  entry is \<open>null\<close>, otherwise the embeddings in the order of the entries.\<close>

fun embeddingsOf :: "'v embed_entry list \<Rightarrow> js_error + 'v option list" where
  "embeddingsOf [] = Inr []"
| "embeddingsOf (NullEntry # ds) = Inl typeError"
| "embeddingsOf (Entry v # ds) =
     (case embeddingsOf ds of Inl err \<Rightarrow> Inl err | Inr vs \<Rightarrow> Inr (v # vs))"

definition readEmbeddings :: "'v embed_body \<Rightarrow> js_error + 'v option list" where
  "readEmbeddings body = (case body of NoData \<Rightarrow> Inl typeError | Data ds \<Rightarrow> embeddingsOf ds)"

text \<open>\<open>embedTexts\<close> of the server and \<open>embedBatch\<close> of the ingestion script: one request,
  then the embeddings of the reply.\<close>

definition embedTexts ::
  "'v embed_service \<Rightarrow> string list \<Rightarrow> event list \<Rightarrow> (js_error + 'v option list) \<times> event list" where
  "embedTexts jina texts log =
     (case axiosPost jina texts log of
        (Inl err, log') \<Rightarrow> (Inl err, log')
      | (Inr body, log') \<Rightarrow> (readEmbeddings body, log'))"

definition embedBatch ::
  "'v embed_service \<Rightarrow> string list \<Rightarrow> event list \<Rightarrow> (js_error + 'v option list) \<times> event list" where
  "embedBatch jina texts log =
     (case axiosPost jina texts log of
        (Inl err, log') \<Rightarrow> (Inl err, log')
      | (Inr body, log') \<Rightarrow> (readEmbeddings body, log'))"

section \<open>Ingestion: point ids and batched upsert\<close>

text \<open>The decimal digits of a non-negative integer, as string concatenation with a
  number writes them (\<open>url + '#' + (i + j)\<close>, \<open>`Source ${i+1}`\<close>).\<close>

definition digitChar :: "nat \<Rightarrow> char" where
  "digitChar d = char_of (48 + d)"

function digits :: "nat \<Rightarrow> string" where
  "digits n = (if n < 10 then [digitChar n] else digits (n div 10) @ [digitChar (n mod 10)])"
  by pat_completeness auto
termination
  by (relation "measure (\<lambda>n. n)") auto

declare digits.simps [simp del]

text \<open>
  The id of a point: \<open>crypto.createHash('md5').update(meta.url + '#' + (i + j)).digest('hex')\<close>.
  The hash function is a parameter \<open>md5\<close>; its value is the 128-bit digest, which the
  source stores as 32 hexadecimal digits.
\<close>

definition pointKey :: "string \<Rightarrow> nat \<Rightarrow> string" where
  "pointKey url k = url @ ''#'' @ digits k"

definition pointId :: "(string \<Rightarrow> 128 word) \<Rightarrow> string \<Rightarrow> nat \<Rightarrow> 128 word" where
  "pointId md5 url k = md5 (pointKey url k)"

record 'v index_point =
  point_id :: "128 word"
  point_vector :: "'v option"
  payload_url :: string
  payload_title :: string
  payload_text :: "string option"

record meta =
  meta_url :: string
  meta_title :: string

type_synonym 'v collection = "128 word \<Rightarrow> 'v index_point option"

text \<open>
  Modelled from the spec: the vector store, which is not part of the repository.
  \<open>upsert(collectionName, points)\<close> has overwrite semantics keyed by \<open>id\<close>; the call can
  fail, and then the collection is unchanged.
\<close>

definition qdrantUpsert ::
  "(nat \<Rightarrow> bool) \<Rightarrow> 'v index_point list \<Rightarrow> 'v collection \<Rightarrow> event list
     \<Rightarrow> (js_error + unit) \<times> 'v collection \<times> event list" where
  "qdrantUpsert qdrantUp points coll log =
     (if qdrantUp (length log) then
        (Inr (), fold (\<lambda>p c. c(point_id p \<mapsto> p)) points coll,
         log @ [QdrantUpsert (map point_id points)])
      else
        (Inl \<lparr>err_status = None, err_response_status = None, err_message = ''upsert failed''\<rparr>,
         coll, log @ [QdrantUpsert (map point_id points)]))"

definition BATCH :: nat where
  "BATCH = 32"

text \<open>
  The points of one batch:
  \<^verbatim>\<open>
  vectors.map((vec, j) => ({
    id: crypto.createHash('md5').update(meta.url + '#' + (i + j)).digest('hex'),
    vector: vec,
    payload: { url: meta.url, title: meta.title, text: slice[j] } }))
  \<close>
  \<open>slice[j]\<close> is \<open>undefined\<close> when the service returned more vectors than texts.
\<close>

definition batchPoints ::
  "(string \<Rightarrow> 128 word) \<Rightarrow> meta \<Rightarrow> nat \<Rightarrow> string list \<Rightarrow> 'v option list \<Rightarrow> 'v index_point list" where
  "batchPoints md5 meta i batch vectors =
     map (\<lambda>(j, vec).
            \<lparr>point_id = pointId md5 (meta_url meta) (i + j),
             point_vector = vec,
             payload_url = meta_url meta,
             payload_title = meta_title meta,
             payload_text = (if j < length batch then Some (batch ! j) else None)\<rparr>)
         (enumerate 0 vectors)"

text \<open>
  The loop of \<open>upsert(chunks, meta)\<close> from index \<open>i\<close>:
  \<^verbatim>\<open>
  for (let i = 0; i < chunks.length; i += BATCH) {
    const slice = chunks.slice(i, i + BATCH);
    const vectors = await embedBatch(slice);
    const points = vectors.map(...);
    await qdrant.upsert(QDRANT_COLLECTION, { points });
  }
  \<close>
  An error of \<open>embedBatch\<close> or of the store leaves the loop. The source's \<open>slice\<close> is
  called \<open>batch\<close> here.
\<close>

function upsertLoop ::
  "(string \<Rightarrow> 128 word) \<Rightarrow> 'v embed_service \<Rightarrow> (nat \<Rightarrow> bool) \<Rightarrow> string list \<Rightarrow> meta \<Rightarrow> nat
     \<Rightarrow> 'v collection \<Rightarrow> event list \<Rightarrow> (js_error + unit) \<times> 'v collection \<times> event list" where
  "upsertLoop md5 jina qdrantUp chunks meta i coll log =
     (if i < length chunks then
        (let batch = take BATCH (drop i chunks) in
         case embedBatch jina batch log of
           (Inl err, log1) \<Rightarrow> (Inl err, coll, log1)
         | (Inr vectors, log1) \<Rightarrow>
             (let points = batchPoints md5 meta i batch vectors in
              case qdrantUpsert qdrantUp points coll log1 of
                (Inl err, coll2, log2) \<Rightarrow> (Inl err, coll2, log2)
              | (Inr u, coll2, log2) \<Rightarrow>
                  upsertLoop md5 jina qdrantUp chunks meta (i + BATCH) coll2 log2))
      else (Inr (), coll, log))"
  by pat_completeness auto
termination
  by (relation "measure (\<lambda>(md5, jina, qdrantUp, chunks, meta, i, coll, log). length chunks - i)")
    (auto simp: BATCH_def)

declare upsertLoop.simps [simp del]

definition upsert ::
  "(string \<Rightarrow> 128 word) \<Rightarrow> 'v embed_service \<Rightarrow> (nat \<Rightarrow> bool) \<Rightarrow> string list \<Rightarrow> meta
     \<Rightarrow> 'v collection \<Rightarrow> event list \<Rightarrow> (js_error + unit) \<times> 'v collection \<times> event list" where
  "upsert md5 jina qdrantUp chunks meta coll log = upsertLoop md5 jina qdrantUp chunks meta 0 coll log"

text \<open>The ids of all points handed to the store, in order.\<close>

fun upsertedIds :: "event list \<Rightarrow> 128 word list" where
  "upsertedIds [] = []"
| "upsertedIds (QdrantUpsert ids # evs) = ids @ upsertedIds evs"
| "upsertedIds (ev # evs) = upsertedIds evs"

section \<open>The prompt builder\<close>

text \<open>
  A retrieval result \<open>{ score, text, url, title }\<close>. The score is a floating-point
  number; the model keeps its type \<open>'s\<close> open and takes \<open>Number.prototype.toFixed\<close> as
  the parameter \<open>toFixed\<close>.
\<close>

record 's retrieval_result =
  res_score :: 's
  res_text :: string
  res_url :: string
  res_title :: string

text \<open>\<open>Array.prototype.join\<close> on strings.\<close>

fun js_join :: "string \<Rightarrow> string list \<Rightarrow> string" where
  "js_join sep [] = []"
| "js_join sep [x] = x"
| "js_join sep (x # y # ys) = x @ sep @ js_join sep (y # ys)"

text \<open>
  One element of \<open>contexts.map((c, i) => ...)\<close>:
  \<^verbatim>\<open>
  `Source ${i+1} (${c.score.toFixed(3)}): ${c.title}
  ${c.text}
  URL: ${c.url}`
  \<close>
\<close>

definition sourceBlock :: "('s \<Rightarrow> nat \<Rightarrow> string) \<Rightarrow> nat \<Rightarrow> 's retrieval_result \<Rightarrow> string" where
  "sourceBlock toFixed i c =
     ''Source '' @ digits (i + 1) @ '' ('' @ toFixed (res_score c) 3 @ ''): '' @ res_title c
       @ ''\<newline>'' @ res_text c @ ''\<newline>URL: '' @ res_url c"

definition sourceBlocks :: "('s \<Rightarrow> nat \<Rightarrow> string) \<Rightarrow> 's retrieval_result list \<Rightarrow> string list" where
  "sourceBlocks toFixed contexts = map (\<lambda>(i, c). sourceBlock toFixed i c) (enumerate 0 contexts)"

text \<open>The two lines of instructions with which the template of the prompt begins.\<close>

definition instruction :: string where
  "instruction =
     ''You are a helpful assistant that answers questions using ONLY the provided news context.''
     @ ''\<newline>''
     @ ''Cite sources inline with [S1], [S2], etc., where the number corresponds to the source order. If you are unsure, say so briefly.''"

text \<open>
  \<^verbatim>\<open>
  function buildRagPrompt(query, contexts) {
    const contextText = contexts.map(...).join('\n\n---\n\n');
    return `You are a helpful assistant that answers questions using ONLY the provided news context.
  Cite sources inline with [S1], [S2], etc., where the number corresponds to the source order. If you are unsure, say so briefly.

  Question: ${query}

  Context:
  ${contextText}

  Answer:`;
  }
  \<close>
\<close>

definition buildRagPrompt :: "('s \<Rightarrow> nat \<Rightarrow> string) \<Rightarrow> string \<Rightarrow> 's retrieval_result list \<Rightarrow> string" where
  "buildRagPrompt toFixed query contexts =
     (let contextText =
            js_join ''\<newline>\<newline>---\<newline>\<newline>'' (sourceBlocks toFixed contexts)
      in ''You are a helpful assistant that answers questions using ONLY the provided news context.''
         @ ''\<newline>''
         @ ''Cite sources inline with [S1], [S2], etc., where the number corresponds to the source order. If you are unsure, say so briefly.''
         @ ''\<newline>\<newline>Question: '' @ query
         @ ''\<newline>\<newline>Context:\<newline>'' @ contextText
         @ ''\<newline>\<newline>Answer:'')"

section \<open>The chat endpoint\<close>

subsection \<open>Session history\<close>

text \<open>
  One entry \<open>{ role, content, ts }\<close> of a session's history. The history of a session is
  stored under the key \<open>session:<id>\<close> as the JSON text of the array of its entries;
  the model keeps the array itself. \<open>SESSION_TTL_SECONDS\<close> only sets the lifetime of the
  key and is left out.
\<close>

record hist_entry =
  role :: string
  content :: string
  ts :: nat

text \<open>
  The state of the server during one request: the session store and the log of
  external actions.
\<close>

record server_state =
  st_redis :: "string \<Rightarrow> hist_entry list option"
  st_log :: "event list"

text \<open>
  A hit of the vector search: a score and a payload, which may be missing as a whole or
  field by field.
\<close>

record payload =
  pl_text :: "string option"
  pl_url :: "string option"
  pl_title :: "string option"

record 's search_hit =
  hit_score :: 's
  hit_payload :: "payload option"

text \<open>
  What the request handler is given from outside: whether the session store answers at
  a given moment, the clock \<open>Date.now()\<close>, the embedding service, the vector search, the
  generation service, the configured model names and the number formatting. Moments are
  counted by the length of the log.
\<close>

record ('v, 's) env =
  env_redisUp :: "nat \<Rightarrow> bool"
  env_now :: "nat \<Rightarrow> nat"
  env_jina :: "'v embed_service"
  env_search :: "nat \<Rightarrow> 'v option \<Rightarrow> nat \<Rightarrow> js_error + 's search_hit list"
  env_genAI :: gen_service
  env_GEMINI_MODEL :: string
  env_GEMINI_FALLBACK_MODEL :: string
  env_toFixed :: "'s \<Rightarrow> nat \<Rightarrow> string"

definition redisError :: js_error where
  "redisError = \<lparr>err_status = None, err_response_status = None, err_message = ''redis''\<rparr>"

text \<open>
  \<^verbatim>\<open>
  async function getHistory(sessionId) {
    const key = `session:${sessionId}`;
    const history = await redis.get(key);
    return history ? JSON.parse(history) : [];
  }
  \<close>
\<close>

definition getHistory ::
  "('v, 's) env \<Rightarrow> string \<Rightarrow> server_state \<Rightarrow> (js_error + hist_entry list) \<times> server_state" where
  "getHistory env sessionId st =
     (let key = ''session:'' @ sessionId;
          st' = st\<lparr>st_log := st_log st @ [RedisGet key]\<rparr>
      in if env_redisUp env (length (st_log st)) then
           (Inr (case st_redis st key of None \<Rightarrow> [] | Some history \<Rightarrow> history), st')
         else (Inl redisError, st'))"

text \<open>
  \<^verbatim>\<open>
  async function pushHistory(sessionId, role, content) {
    const key = `session:${sessionId}`;
    const history = await getHistory(sessionId);
    history.push({ role, content, ts: Date.now() });
    await redis.set(key, JSON.stringify(history), 'EX', SESSION_TTL_SECONDS);
  }
  \<close>
\<close>

definition pushHistory ::
  "('v, 's) env \<Rightarrow> string \<Rightarrow> string \<Rightarrow> string \<Rightarrow> server_state \<Rightarrow> (js_error + unit) \<times> server_state" where
  "pushHistory env sessionId r c st =
     (let key = ''session:'' @ sessionId in
      case getHistory env sessionId st of
        (Inl err, st1) \<Rightarrow> (Inl err, st1)
      | (Inr history, st1) \<Rightarrow>
          (let history' = history @ [\<lparr>role = r, content = c, ts = env_now env (length (st_log st1))\<rparr>];
               logged = st_log st1 @ [RedisSet key]
           in if env_redisUp env (length (st_log st1)) then
                (Inr (), st1\<lparr>st_redis := (st_redis st1)(key \<mapsto> history'), st_log := logged\<rparr>)
              else (Inl redisError, st1\<lparr>st_log := logged\<rparr>)))"

subsection \<open>Retrieval\<close>

text \<open>\<open>x || ''\<close> on a field that is a string or missing.\<close>

definition orEmpty :: "string option \<Rightarrow> string" where
  "orEmpty x = (case x of None \<Rightarrow> [] | Some s \<Rightarrow> s)"

text \<open>
  \<^verbatim>\<open>
  search.map(hit => ({
    score: hit.score,
    text: hit.payload?.text || '',
    url: hit.payload?.url || '',
    title: hit.payload?.title || '',
  }))
  \<close>
\<close>

definition hitResult :: "'s search_hit \<Rightarrow> 's retrieval_result" where
  "hitResult hit =
     \<lparr>res_score = hit_score hit,
      res_text = (case hit_payload hit of None \<Rightarrow> [] | Some p \<Rightarrow> orEmpty (pl_text p)),
      res_url = (case hit_payload hit of None \<Rightarrow> [] | Some p \<Rightarrow> orEmpty (pl_url p)),
      res_title = (case hit_payload hit of None \<Rightarrow> [] | Some p \<Rightarrow> orEmpty (pl_title p))\<rparr>"

text \<open>
  \<^verbatim>\<open>
  async function retrieve(query, topK = 5) {
    const [qvec] = await embedTexts([query]);
    const search = await qdrant.search(QDRANT_COLLECTION, { vector: qvec, limit: topK, ... });
    return search.map(...);
  }
  \<close>
  \<open>qvec\<close> is \<open>undefined\<close> when the embedding service returned an empty array.
\<close>

definition retrieve ::
  "('v, 's) env \<Rightarrow> string \<Rightarrow> nat \<Rightarrow> event list \<Rightarrow> (js_error + 's retrieval_result list) \<times> event list" where
  "retrieve env query topK log =
     (case embedTexts (env_jina env) [query] log of
        (Inl err, log1) \<Rightarrow> (Inl err, log1)
      | (Inr vectors, log1) \<Rightarrow>
          (let qvec = (case vectors of [] \<Rightarrow> None | v # rest \<Rightarrow> v) in
           case env_search env (length log1) qvec topK of
             Inl err \<Rightarrow> (Inl err, log1 @ [QdrantSearch topK])
           | Inr hits \<Rightarrow> (Inr (map hitResult hits), log1 @ [QdrantSearch topK])))"

subsection \<open>The handler of \<open>POST /api/chat\<close>\<close>

text \<open>The value of \<open>req.body.message\<close>, as far as the handler distinguishes values.\<close>

datatype js_value = JUndefined | JNull | JBool bool | JNum int | JStr string | JObject

record request =
  req_message :: js_value
  req_sessionId :: string

record 's source =
  src_id :: string
  src_title :: string
  src_url :: string
  src_score :: 's

text \<open>\<open>res.status(code).json({ error })\<close> and \<open>res.status(code).json({ reply, sources,
  sessionId })\<close>; \<open>res.json\<close> alone sends status 200.\<close>

datatype 's response =
    JsonError int string
  | JsonReply int string "'s source list" string

text \<open>The characters below 256 that \<open>String.prototype.trim\<close> removes.\<close>

definition jsWhitespace :: "char \<Rightarrow> bool" where
  "jsWhitespace c \<longleftrightarrow> (of_char c :: nat) \<in> {9, 10, 11, 12, 13, 32, 160}"

definition trim :: "string \<Rightarrow> string" where
  "trim s = rev (dropWhile jsWhitespace (rev (dropWhile jsWhitespace s)))"

text \<open>
  The guard \<^verbatim>\<open>!message || !message.trim()\<close>: \<open>Inr True\<close> when it holds (the request is
  refused with status 400), \<open>Inr False\<close> when the message passes, and a \<open>TypeError\<close> when
  the message is a truthy value that is not a string, which has no \<open>trim\<close>.
\<close>

definition messageRefused :: "js_value \<Rightarrow> js_error + bool" where
  "messageRefused message =
     (case message of
        JUndefined \<Rightarrow> Inr True
      | JNull \<Rightarrow> Inr True
      | JBool b \<Rightarrow> (if b then Inl typeError else Inr True)
      | JNum n \<Rightarrow> (if n = 0 then Inr True else Inl typeError)
      | JStr s \<Rightarrow> Inr (s = [] \<or> trim s = [])
      | JObject \<Rightarrow> Inl typeError)"

definition info :: string where
  "info = ''No indexed news found for retrieval. Please run `npm run ingest` (and ensure NEWS_RSS_LIST and JINA_API_KEY are set).''"

definition friendly :: string where
  "friendly = ''The news model is busy right now. Please try again in a few seconds.''"

text \<open>\<^verbatim>\<open>docs.map((d, idx) => ({ id: `S${idx+1}`, title: d.title, url: d.url, score: d.score }))\<close>\<close>

definition sourcesOf :: "'s retrieval_result list \<Rightarrow> 's source list" where
  "sourcesOf docs =
     map (\<lambda>(idx, d). \<lparr>src_id = ''S'' @ digits (idx + 1), src_title = res_title d,
                        src_url = res_url d, src_score = res_score d\<rparr>)
         (enumerate 0 docs)"

text \<open>
  The part of the handler after the guard, for a message \<open>message\<close> that is a string:
  \<^verbatim>\<open>
  await pushHistory(req.sessionId, 'user', message);
  const docs = await retrieve(message, 5);
  if (!docs || docs.length === 0) {
    const info = '...';
    await pushHistory(req.sessionId, 'assistant', info);
    return res.json({ reply: info, sources: [], sessionId: req.sessionId });
  }
  const prompt = buildRagPrompt(message, docs);
  const reply = await generateWithRetries(genAI, GEMINI_MODEL, prompt);
  await pushHistory(req.sessionId, 'assistant', reply);
  return res.json({ reply, sources: docs.map(...), sessionId: req.sessionId });
  \<close>
  The result is \<open>Inl\<close> with the thrown value when a step throws (\<open>generateWithRetries\<close>
  throws \<open>lastErr\<close>, which may be undefined), and \<open>Inr\<close> with the response otherwise.
\<close>

definition answerMessage ::
  "('v, 's) env \<Rightarrow> string \<Rightarrow> string \<Rightarrow> server_state
     \<Rightarrow> (js_error option + 's response) \<times> server_state" where
  "answerMessage env sessionId message st =
     (case pushHistory env sessionId ''user'' message st of
        (Inl err, st1) \<Rightarrow> (Inl (Some err), st1)
      | (Inr u, st1) \<Rightarrow>
          (case retrieve env message 5 (st_log st1) of
             (Inl err, log2) \<Rightarrow> (Inl (Some err), st1\<lparr>st_log := log2\<rparr>)
           | (Inr docs, log2) \<Rightarrow>
               (if docs = [] then
                  (case pushHistory env sessionId ''assistant'' info (st1\<lparr>st_log := log2\<rparr>) of
                     (Inl err, st3) \<Rightarrow> (Inl (Some err), st3)
                   | (Inr u, st3) \<Rightarrow> (Inr (JsonReply 200 info [] sessionId), st3))
                else
                  (let prompt = buildRagPrompt (env_toFixed env) message docs in
                   case generateWithRetries (env_genAI env) (env_GEMINI_FALLBACK_MODEL env)
                          (env_GEMINI_MODEL env) prompt 4 log2 of
                     (Inl lastErr, log3) \<Rightarrow> (Inl lastErr, st1\<lparr>st_log := log3\<rparr>)
                   | (Inr reply, log3) \<Rightarrow>
                       (case pushHistory env sessionId ''assistant'' reply (st1\<lparr>st_log := log3\<rparr>) of
                          (Inl err, st4) \<Rightarrow> (Inl (Some err), st4)
                        | (Inr u, st4) \<Rightarrow>
                            (Inr (JsonReply 200 reply (sourcesOf docs) sessionId), st4))))))"

text \<open>The body of the \<open>try\<close> block: the guard, then the rest.\<close>

definition chatBody ::
  "('v, 's) env \<Rightarrow> request \<Rightarrow> server_state \<Rightarrow> (js_error option + 's response) \<times> server_state" where
  "chatBody env req st =
     (case messageRefused (req_message req) of
        Inl err \<Rightarrow> (Inl (Some err), st)
      | Inr True \<Rightarrow> (Inr (JsonError 400 ''message is required''), st)
      | Inr False \<Rightarrow>
          (case req_message req of
             JStr message \<Rightarrow> answerMessage env (req_sessionId req) message st
           | _ \<Rightarrow> (Inl (Some typeError), st)))"

text \<open>
  The handler: the \<open>try\<close> block, and the \<open>catch\<close> that answers every thrown value with
  \<^verbatim>\<open>res.status(200).json({ reply: friendly, sources: [], sessionId: req.sessionId })\<close>.
\<close>

definition chatHandler ::
  "('v, 's) env \<Rightarrow> request \<Rightarrow> server_state \<Rightarrow> 's response \<times> server_state" where
  "chatHandler env req st =
     (case chatBody env req st of
        (Inr resp, st') \<Rightarrow> (resp, st')
      | (Inl err, st') \<Rightarrow> (JsonReply 200 friendly [] (req_sessionId req), st'))"

text \<open>The history of a session as stored (an absent key is the empty history).\<close>

definition historyOf :: "server_state \<Rightarrow> string \<Rightarrow> hist_entry list" where
  "historyOf st sessionId =
     (case st_redis st (''session:'' @ sessionId) of None \<Rightarrow> [] | Some history \<Rightarrow> history)"

section \<open>Properties of the chunker\<close>

lemma spansFrom_stop: "\<not> (i < L \<and> 0 < n) \<Longrightarrow> spansFrom L C O' i n = []"
  by (cases n) auto

lemma spanLoop_spansFrom:
  "spanLoop L C O' m i acc = acc @ spansFrom L C O' i (nat (m - int (length acc)))"
proof (induction L C O' m i acc rule: spanLoop.induct)
  case (1 L C O' m i acc)
  define e where "e = min (i + C) L"
  define i' where "i' = (if e - O' < 0 then 0 else e - O')"
  show ?case
  proof (cases "i < L \<and> int (length acc) < m")
    case True
    obtain k where k: "nat (m - int (length acc)) = Suc k"
      and k': "nat (m - int (length (acc @ [(i, e)]))) = k"
      using True by (cases "nat (m - int (length acc))") auto
    have "spanLoop L C O' m i acc = spanLoop L C O' m i' (acc @ [(i, e)])"
      using True by (subst spanLoop.simps) (simp add: Let_def e_def i'_def)
    also have "\<dots> = (acc @ [(i, e)]) @ spansFrom L C O' i' (nat (m - int (length (acc @ [(i, e)]))))"
      using True by (intro "1.IH") (auto simp: Let_def e_def i'_def)
    also have "\<dots> = acc @ spansFrom L C O' i (nat (m - int (length acc)))"
      using True unfolding k k' by (simp add: e_def i'_def)
    finally show ?thesis .
  next
    case False
    then have "spansFrom L C O' i (nat (m - int (length acc))) = []"
      by (intro spansFrom_stop) auto
    with False show ?thesis
      by (subst spanLoop.simps) auto
  qed
qed

lemma chunkLoop_spansFrom:
  "chunkLoop t C O' m i acc =
     acc @ map (\<lambda>(s, e). js_slice t s e) (spansFrom (int (length t)) C O' i (nat (m - int (length acc))))"
proof (induction t C O' m i acc rule: chunkLoop.induct)
  case (1 t C O' m i acc)
  define L where "L = int (length t)"
  define e where "e = min (i + C) L"
  define i' where "i' = (if e - O' < 0 then 0 else e - O')"
  show ?case
  proof (cases "i < L \<and> int (length acc) < m")
    case True
    obtain k where k: "nat (m - int (length acc)) = Suc k"
      and k': "nat (m - int (length (acc @ [js_slice t i e]))) = k"
      using True by (cases "nat (m - int (length acc))") auto
    have "chunkLoop t C O' m i acc = chunkLoop t C O' m i' (acc @ [js_slice t i e])"
      using True by (subst chunkLoop.simps) (simp add: Let_def e_def i'_def L_def)
    also have "\<dots> = (acc @ [js_slice t i e]) @ map (\<lambda>(s, e). js_slice t s e)
        (spansFrom L C O' i' (nat (m - int (length (acc @ [js_slice t i e])))))"
      unfolding L_def using True by (intro "1.IH") (auto simp: Let_def e_def i'_def L_def)
    also have "\<dots> = acc @ map (\<lambda>(s, e). js_slice t s e) (spansFrom L C O' i (nat (m - int (length acc))))"
      using True unfolding k k' by (simp add: e_def i'_def)
    finally show ?thesis unfolding L_def .
  next
    case False
    then have "spansFrom L C O' i (nat (m - int (length acc))) = []"
      by (intro spansFrom_stop) auto
    with False show ?thesis unfolding L_def
      by (subst chunkLoop.simps) auto
  qed
qed



lemma cursor_facts:
  assumes "e = min (i + C) (L::int)" and "i' = (if e - O' < 0 then 0 else e - O')"
  shows "e \<le> L" and "e \<le> i + C" and "e = L \<or> e = i + C"
    and "0 \<le> i'" and "e - O' \<le> i'" and "i' = 0 \<or> i' = e - O'"
proof -
  show "e \<le> L" "e \<le> i + C" "e = L \<or> e = i + C"
    unfolding assms(1) by (simp_all add: min_def)
  show "0 \<le> i'" "e - O' \<le> i'" "i' = 0 \<or> i' = e - O'"
    unfolding assms(2) by (cases "e - O' < 0"; simp)+
qed

lemma spansFrom_Suc:
  assumes "i < L" and "e = min (i + C) L" and "i' = (if e - O' < 0 then 0 else e - O')"
  shows "spansFrom L C O' i (Suc n) = (i, e) # spansFrom L C O' i' n"
  using assms by simp

lemma spansFrom_bounds:
  "(s, e) \<in> set (spansFrom L C O' i n) \<Longrightarrow> 0 \<le> i \<Longrightarrow> 0 \<le> O' \<Longrightarrow> O' < C \<Longrightarrow>
     0 \<le> s \<and> s < e \<and> e \<le> L \<and> e = min (s + C) L"
proof (induction n arbitrary: i)
  case 0
  then show ?case by simp
next
  case (Suc n)
  define e0 where "e0 = min (i + C) L"
  define i' where "i' = (if e0 - O' < 0 then 0 else e0 - O')"
  note cf = cursor_facts [OF e0_def i'_def]
  show ?case
  proof (cases "i < L")
    case True
    note unf = spansFrom_Suc [OF True e0_def i'_def]
    from Suc.prems(1) consider "s = i \<and> e = e0" | "(s, e) \<in> set (spansFrom L C O' i' n)"
      unfolding unf by auto
    then show ?thesis
    proof cases
      case 1
      then have "s = i" "e = min (s + C) L" by (simp_all add: e0_def)
      moreover have "i < e0" using True Suc.prems(3,4) cf(3) by linarith
      ultimately show ?thesis using 1 Suc.prems(2) cf(1) by simp
    next
      case 2
      then show ?thesis using cf(4) Suc.prems(3,4) by (rule Suc.IH)
    qed
  next
    case False
    with Suc.prems show ?thesis by simp
  qed
qed

lemma spansFrom_hd: "spansFrom L C O' i n \<noteq> [] \<Longrightarrow> fst (hd (spansFrom L C O' i n)) = i"
  by (cases n) (auto split: if_splits)

lemma spansFrom_chain:
  "Suc k < length (spansFrom L C O' i n) \<Longrightarrow>
     fst (spansFrom L C O' i n ! Suc k) =
       (if snd (spansFrom L C O' i n ! k) - O' < 0 then 0 else snd (spansFrom L C O' i n ! k) - O')"
proof (induction n arbitrary: i k)
  case 0
  then show ?case by simp
next
  case (Suc n)
  define e0 where "e0 = min (i + C) L"
  define i' where "i' = (if e0 - O' < 0 then 0 else e0 - O')"
  from Suc.prems have iL: "i < L" by (auto split: if_splits)
  note unf = spansFrom_Suc [OF iL e0_def i'_def]
  show ?case
  proof (cases k)
    case 0
    with Suc.prems have ne: "spansFrom L C O' i' n \<noteq> []" unfolding unf by auto
    then have "fst (hd (spansFrom L C O' i' n)) = i'" by (rule spansFrom_hd)
    with ne have "fst (spansFrom L C O' i' n ! 0) = i'" by (simp add: hd_conv_nth)
    with 0 show ?thesis unfolding unf by (simp add: i'_def)
  next
    case (Suc j)
    with Suc.prems have "Suc j < length (spansFrom L C O' i' n)" unfolding unf by simp
    from Suc.IH [OF this] Suc show ?thesis unfolding unf by simp
  qed
qed

lemma spansFrom_last:
  "0 \<le> i \<Longrightarrow> i < L \<Longrightarrow> 0 \<le> O' \<Longrightarrow> O' < C \<Longrightarrow>
     snd (last (spansFrom L C O' i (Suc n))) = min L (i + C + int n * (C - O'))"
proof (induction n arbitrary: i)
  case 0
  then show ?case by (simp add: min.commute)
next
  case (Suc n)
  define e0 where "e0 = min (i + C) L"
  define i' where "i' = (if e0 - O' < 0 then 0 else e0 - O')"
  define X where "X = int n * (C - O')"
  note cf = cursor_facts [OF e0_def i'_def]
  note unf = spansFrom_Suc [OF Suc.prems(2) e0_def i'_def]
  have pos: "0 \<le> X" using Suc.prems by (simp add: X_def)
  have step: "int (Suc n) * (C - O') = (C - O') + X"
    by (simp add: algebra_simps X_def)
  have goal: "min L (i + C + ((C - O') + X)) = (if e0 = L then L else i + C + (C - O') + X)"
    if "e0 = L \<or> i + C + (C - O') + X \<le> L"
    using that pos Suc.prems cf(1,2,3) by (auto simp: min_def)
  show ?case
  proof (cases "i' < L")
    case True
    then have ne: "spansFrom L C O' i' (Suc n) \<noteq> []" by simp
    have "snd (last (spansFrom L C O' i (Suc (Suc n)))) = snd (last (spansFrom L C O' i' (Suc n)))"
      unfolding unf using ne by simp
    also have "\<dots> = min L (i' + C + X)"
      unfolding X_def using cf(4) True Suc.prems(3,4) by (rule Suc.IH)
    also have "\<dots> = min L (i + C + ((C - O') + X))"
    proof (cases "e0 = L")
      case True
      then have "L \<le> i + C" using cf(2) by simp
      moreover have "L - O' \<le> i'" using cf(5) True by simp
      ultimately have "L \<le> i' + C + X" "L \<le> i + C + ((C - O') + X)"
        using pos Suc.prems(3,4) by linarith+
      then show ?thesis by (simp add: min_def)
    next
      case False
      then have "e0 = i + C" using cf(3) by simp
      then have "i' = i + C - O'" using cf(6) cf(5) Suc.prems by linarith
      then show ?thesis by (simp add: algebra_simps)
    qed
    finally show ?thesis unfolding step .
  next
    case False
    then have emp: "spansFrom L C O' i' (Suc n) = []" by simp
    from False cf(1,6) Suc.prems have "e0 = L" by linarith
    moreover from this have "L \<le> i + C" using cf(2) by simp
    ultimately show ?thesis
      unfolding unf emp step using pos Suc.prems by (simp add: min_def)
  qed
qed

lemma spansFrom_cover:
  "0 \<le> i \<Longrightarrow> 0 \<le> O' \<Longrightarrow> O' < C \<Longrightarrow> i \<le> p \<Longrightarrow> p < min L (i + C + int n * (C - O')) \<Longrightarrow>
     \<exists>(s, e) \<in> set (spansFrom L C O' i (Suc n)). s \<le> p \<and> p < e"
proof (induction n arbitrary: i)
  case 0
  then show ?case by auto
next
  case (Suc n)
  define e0 where "e0 = min (i + C) L"
  define i' where "i' = (if e0 - O' < 0 then 0 else e0 - O')"
  define X where "X = int n * (C - O')"
  note cf = cursor_facts [OF e0_def i'_def]
  have pos: "0 \<le> X" using Suc.prems by (simp add: X_def)
  have step: "int (Suc n) * (C - O') = (C - O') + X"
    by (simp add: algebra_simps X_def)
  from Suc.prems have iL: "i < L" and pL: "p < L" and pB: "p < i + C + ((C - O') + X)"
    unfolding step by simp_all
  note unf = spansFrom_Suc [OF iL e0_def i'_def]
  show ?case
  proof (cases "p < e0")
    case True
    with Suc.prems(4) show ?thesis unfolding unf by auto
  next
    case False
    with pL cf(3) have eL: "e0 = i + C" by linarith
    then have i'_eq: "i' = i + C - O'" using cf(6) cf(5) Suc.prems by linarith
    have "\<exists>(s, e) \<in> set (spansFrom L C O' i' (Suc n)). s \<le> p \<and> p < e"
    proof (rule Suc.IH)
      show "0 \<le> i'" by (rule cf(4))
      show "0 \<le> O'" "O' < C" by fact+
      show "i' \<le> p" using False eL i'_eq Suc.prems by linarith
      show "p < min L (i' + C + int n * (C - O'))"
        using pL pB unfolding i'_eq X_def [symmetric] by simp
    qed
    then show ?thesis unfolding unf by auto
  qed
qed

lemma spansFrom_length_overlap:
  "0 \<le> i \<Longrightarrow> i < L \<Longrightarrow> 0 < O' \<Longrightarrow> length (spansFrom L C O' i n) = n"
proof (induction n arbitrary: i)
  case 0
  then show ?case by simp
next
  case (Suc n)
  define e0 where "e0 = min (i + C) L"
  define i' where "i' = (if e0 - O' < 0 then 0 else e0 - O')"
  note cf = cursor_facts [OF e0_def i'_def]
  note unf = spansFrom_Suc [OF Suc.prems(2) e0_def i'_def]
  have "i' < L" using cf(1,6) Suc.prems by linarith
  from Suc.IH [OF cf(4) this Suc.prems(3)] show ?case unfolding unf by simp
qed

lemma chunkSpans_spansFrom:
  "chunkSpans L C O' m = spansFrom L C O' 0 (nat m)"
  by (simp add: chunkSpans_def spanLoop_spansFrom)

lemma chunkText_spansFrom:
  "chunkText t C O' m = map (\<lambda>(s, e). js_slice t s e) (spansFrom (int (length t)) C O' 0 (nat m))"
  by (simp add: chunkText_def chunkLoop_spansFrom)

lemma js_slice_inside:
  "0 \<le> s \<Longrightarrow> s \<le> e \<Longrightarrow> e \<le> int (length t) \<Longrightarrow> js_slice t s e = take (nat (e - s)) (drop (nat s) t)"
  by (simp add: js_slice_def Let_def)

lemma chunkSpans_bounds:
  assumes "0 \<le> O'" and "O' < C" and "(s, e) \<in> set (chunkSpans L C O' m)"
  shows "0 \<le> s \<and> s < e \<and> e \<le> L \<and> e = min (s + C) L"
  using spansFrom_bounds [of s e L C O' 0 "nat m"] assms by (simp add: chunkSpans_spansFrom)

lemma chunkText_spans:
  assumes "0 \<le> O'" and "O' < C"
  shows "chunkText t C O' m =
    map (\<lambda>(s, e). take (nat (e - s)) (drop (nat s) t)) (chunkSpans (int (length t)) C O' m)"
proof -
  have "js_slice t s e = take (nat (e - s)) (drop (nat s) t)"
    if "(s, e) \<in> set (chunkSpans (int (length t)) C O' m)" for s e
  proof -
    from chunkSpans_bounds [OF assms that]
    have "0 \<le> s" "s \<le> e" "e \<le> int (length t)" by linarith+
    then show ?thesis by (rule js_slice_inside)
  qed
  then show ?thesis
    unfolding chunkText_spansFrom chunkSpans_spansFrom [symmetric] by auto
qed

lemma chunkText_nonempty_chunks:
  assumes "0 \<le> O'" and "O' < C"
  shows "[] \<notin> set (chunkText t C O' m)"
proof
  assume "[] \<in> set (chunkText t C O' m)"
  then obtain s e where se: "(s, e) \<in> set (chunkSpans (int (length t)) C O' m)"
    and emp: "take (nat (e - s)) (drop (nat s) t) = []"
    unfolding chunkText_spans [OF assms] by auto
  from chunkSpans_bounds [OF assms se] have "0 \<le> s" "s < e" "e \<le> int (length t)" by linarith+
  then have "length (take (nat (e - s)) (drop (nat s) t)) = nat (e - s)" by simp
  with emp \<open>s < e\<close> show False by simp
qed

lemma chunkSpans_hd:
  "chunkSpans L C O' m \<noteq> [] \<Longrightarrow> fst (hd (chunkSpans L C O' m)) = 0"
  unfolding chunkSpans_spansFrom by (rule spansFrom_hd)

lemma chunkSpans_chain:
  "Suc k < length (chunkSpans L C O' m) \<Longrightarrow>
     fst (chunkSpans L C O' m ! Suc k) = max 0 (snd (chunkSpans L C O' m ! k) - O')"
  unfolding chunkSpans_spansFrom by (simp add: spansFrom_chain max_def)

lemma chunkSpans_overlap:
  assumes "0 \<le> O'" and "O' < C" and "O' \<le> L" and "Suc k < length (chunkSpans L C O' m)"
  shows "snd (chunkSpans L C O' m ! k) - fst (chunkSpans L C O' m ! Suc k) = O'"
proof -
  obtain s e where se: "chunkSpans L C O' m ! k = (s, e)" by (cases "chunkSpans L C O' m ! k")
  with assms(4) have "(s, e) \<in> set (chunkSpans L C O' m)"
    by (metis Suc_lessD nth_mem)
  from chunkSpans_bounds [OF assms(1,2) this] assms(2,3) have "O' \<le> e" by linarith
  with chunkSpans_chain [OF assms(4)] se show ?thesis by simp
qed

lemma chunkSpans_last:
  assumes "0 \<le> O'" and "O' < C" and "0 < L" and "0 < m"
  shows "snd (last (chunkSpans L C O' m)) = min L (C + (m - 1) * (C - O'))"
proof -
  obtain n where n: "nat m = Suc n" using assms(4) by (cases "nat m") auto
  then have "int n = m - 1" by linarith
  with spansFrom_last [of 0 L O' C n] assms show ?thesis
    unfolding chunkSpans_spansFrom n by simp
qed

lemma chunkSpans_cover:
  assumes "0 \<le> O'" and "O' < C" and "0 < m" and "0 \<le> p"
    and "p < min L (C + (m - 1) * (C - O'))"
  shows "\<exists>(s, e) \<in> set (chunkSpans L C O' m). s \<le> p \<and> p < e"
proof -
  obtain n where n: "nat m = Suc n" using assms(3) by (cases "nat m") auto
  then have "int n = m - 1" by linarith
  with spansFrom_cover [of 0 O' C p L n] assms show ?thesis
    unfolding chunkSpans_spansFrom n by simp
qed

lemma chunkText_length_overlap:
  assumes "0 < O'" and "t \<noteq> []"
  shows "length (chunkText t C O' m) = nat m"
  using spansFrom_length_overlap [of 0 "int (length t)" O' C "nat m"] assms
  by (simp add: chunkText_spansFrom)

lemma spansFrom_tail:
  "0 < O' \<Longrightarrow> O' < C \<Longrightarrow> 0 \<le> i \<Longrightarrow> i < L \<Longrightarrow> L \<le> i + C \<Longrightarrow>
     spansFrom L C O' i (Suc n) = (i, L) # replicate n (max 0 (L - O'), L)"
proof (induction n arbitrary: i)
  case 0
  then show ?case by simp
next
  case (Suc n)
  define e0 where "e0 = min (i + C) L"
  define i' where "i' = (if e0 - O' < 0 then 0 else e0 - O')"
  note cf = cursor_facts [OF e0_def i'_def]
  note unf = spansFrom_Suc [OF Suc.prems(4) e0_def i'_def]
  have e0: "e0 = L" using Suc.prems by (simp add: e0_def)
  have i'm: "i' = max 0 (L - O')" unfolding i'_def e0 by (simp add: max_def)
  have "spansFrom L C O' i' (Suc n) = (i', L) # replicate n (max 0 (L - O'), L)"
  proof (rule Suc.IH)
    show "0 < O'" "O' < C" by fact+
    show "0 \<le> i'" by (rule cf(4))
    show "i' < L" using cf(6) e0 Suc.prems by linarith
    show "L \<le> i' + C" using cf(5) e0 Suc.prems by linarith
  qed
  then show ?case unfolding unf e0 i'm by simp
qed

lemma chunkText_short_text:
  assumes "0 < O'" and "O' < C" and "t \<noteq> []" and "int (length t) \<le> C" and "0 < m"
  shows "chunkText t C O' m = t # replicate (nat m - 1) (drop (length t - nat O') t)"
proof -
  obtain n where n: "nat m = Suc n" using assms(5) by (cases "nat m") auto
  have tail: "js_slice t (max 0 (int (length t) - O')) (int (length t)) = drop (length t - nat O') t"
    using assms(1) by (simp add: js_slice_def Let_def max_def nat_diff_distrib')
  have whole: "js_slice t 0 (int (length t)) = t" by (simp add: js_slice_def)
  from spansFrom_tail [of O' C 0 "int (length t)" n] assms
  have "spansFrom (int (length t)) C O' 0 (Suc n) =
      (0, int (length t)) # replicate n (max 0 (int (length t) - O'), int (length t))"
    by simp
  then show ?thesis
    unfolding chunkText_spansFrom n by (simp add: tail whole)
qed

lemma chunkText_no_overlap_short:
  assumes "t \<noteq> []" and "int (length t) \<le> C" and "0 < m"
  shows "chunkText t C 0 m = [t]"
proof -
  obtain n where n: "nat m = Suc n" using assms(3) by (cases "nat m") auto
  have "spansFrom (int (length t)) C 0 0 (Suc n) = [(0, int (length t))]"
    using assms by (cases n) (simp_all add: min_def)
  then show ?thesis unfolding chunkText_spansFrom n by (simp add: js_slice_def)
qed

text \<open>
  Claim C1, at the input the ingestion script really passes: a text of 200 characters
  (shorter than the chunk size 800) with the script's parameters \<open>chunkText(text, 800, 80, 80)\<close>.
  After the first chunk the cursor is set back to \<open>end - overlap\<close>, which is below the
  length of the text, so the loop never stops at the end of the text: it returns the
  whole text followed by 79 copies of its last 80 characters, 80 chunks where the claim
  promises exactly one.
\<close>

theorem chunkText_repeats_tail_until_cap:
  "chunkText (replicate 200 (CHR ''a'')) 800 80 80 =
     replicate 200 (CHR ''a'') # replicate 79 (replicate 80 (CHR ''a''))"
  using chunkText_short_text [of 80 800 "replicate 200 (CHR ''a'')" 80] by simp

text \<open>
  What the chunker guarantees for \<open>0 \<le> overlap < chunkSize\<close> and a text of length \<open>L\<close>:
  the chunks are the slices of the text at the spans of \<open>chunkSpans\<close>; no chunk is
  empty and every span lies inside the text; the first span starts at 0 and each next
  span starts at the previous end minus the overlap, clamped to 0, so there is no gap;
  consecutive chunks share exactly \<open>overlap\<close> characters whenever the text has at least
  \<open>overlap\<close> characters; the last span ends at
  \<open>min L (chunkSize + (maxChunks - 1) * (chunkSize - overlap))\<close>, which is \<open>L\<close> for every
  text no longer than \<open>maxChunks * (chunkSize - overlap)\<close>; and every position below
  that end lies in some span.
\<close>

lemma chunkText_guarantees:
  assumes "0 \<le> overlap" and "overlap < chunkSize"
  shows "(let L = int (length text); sp = chunkSpans L chunkSize overlap maxChunks;
              reach = min L (chunkSize + (maxChunks - 1) * (chunkSize - overlap)) in
            chunkText text chunkSize overlap maxChunks =
              map (\<lambda>(s, e). take (nat (e - s)) (drop (nat s) text)) sp
          \<and> [] \<notin> set (chunkText text chunkSize overlap maxChunks)
          \<and> (\<forall>(s, e) \<in> set sp. 0 \<le> s \<and> s < e \<and> e \<le> L)
          \<and> (sp \<noteq> [] \<longrightarrow> fst (hd sp) = 0)
          \<and> (\<forall>k. Suc k < length sp \<longrightarrow> fst (sp ! Suc k) = max 0 (snd (sp ! k) - overlap))
          \<and> (overlap \<le> L \<longrightarrow>
               (\<forall>k. Suc k < length sp \<longrightarrow> snd (sp ! k) - fst (sp ! Suc k) = overlap))
          \<and> (0 < L \<and> 0 < maxChunks \<longrightarrow> snd (last sp) = reach)
          \<and> (0 < L \<and> L \<le> maxChunks * (chunkSize - overlap) \<longrightarrow> snd (last sp) = L)
          \<and> (0 < maxChunks \<longrightarrow> (\<forall>p. 0 \<le> p \<and> p < reach \<longrightarrow> (\<exists>(s, e) \<in> set sp. s \<le> p \<and> p < e))))"
proof -
  define L where "L = int (length text)"
  define sp where "sp = chunkSpans L chunkSize overlap maxChunks"
  define reach where "reach = min L (chunkSize + (maxChunks - 1) * (chunkSize - overlap))"
  have p1: "chunkText text chunkSize overlap maxChunks =
      map (\<lambda>(s, e). take (nat (e - s)) (drop (nat s) text)) sp"
    unfolding sp_def L_def by (rule chunkText_spans [OF assms])
  have p2: "[] \<notin> set (chunkText text chunkSize overlap maxChunks)"
    by (rule chunkText_nonempty_chunks [OF assms])
  have p3: "\<forall>(s, e) \<in> set sp. 0 \<le> s \<and> s < e \<and> e \<le> L"
    unfolding sp_def using chunkSpans_bounds [OF assms] by blast
  have p4: "sp \<noteq> [] \<longrightarrow> fst (hd sp) = 0"
    unfolding sp_def using chunkSpans_hd by blast
  have p5: "\<forall>k. Suc k < length sp \<longrightarrow> fst (sp ! Suc k) = max 0 (snd (sp ! k) - overlap)"
    unfolding sp_def using chunkSpans_chain by blast
  have p6: "overlap \<le> L \<longrightarrow>
      (\<forall>k. Suc k < length sp \<longrightarrow> snd (sp ! k) - fst (sp ! Suc k) = overlap)"
    unfolding sp_def using chunkSpans_overlap [OF assms] by blast
  have p7: "0 < L \<and> 0 < maxChunks \<longrightarrow> snd (last sp) = reach"
    unfolding sp_def reach_def using chunkSpans_last [OF assms] by blast
  have p8: "0 < L \<and> L \<le> maxChunks * (chunkSize - overlap) \<longrightarrow> snd (last sp) = L"
  proof
    assume a: "0 < L \<and> L \<le> maxChunks * (chunkSize - overlap)"
    have "0 < maxChunks"
    proof (rule ccontr)
      assume "\<not> 0 < maxChunks"
      then have "maxChunks * (chunkSize - overlap) \<le> 0"
        using assms by (simp add: mult_le_0_iff)
      with a show False by linarith
    qed
    moreover have "chunkSize + (maxChunks - 1) * (chunkSize - overlap) =
        maxChunks * (chunkSize - overlap) + overlap"
      by (simp add: algebra_simps)
    ultimately show "snd (last sp) = L"
      using p7 a assms unfolding reach_def by (simp add: min_def)
  qed
  have p9: "0 < maxChunks \<longrightarrow>
      (\<forall>p. 0 \<le> p \<and> p < reach \<longrightarrow> (\<exists>(s, e) \<in> set sp. s \<le> p \<and> p < e))"
    unfolding sp_def reach_def using chunkSpans_cover [OF assms] by blast
  from p1 p2 p3 p4 p5 p6 p7 p8 p9 show ?thesis
    unfolding Let_def L_def [symmetric] sp_def [symmetric] reach_def [symmetric] by blast
qed

text \<open>
  Two consecutive spans share other than \<open>overlap\<close> characters only when the first of
  them already ended at the end of the text, that is, only in a chunk that the loop
  produces after it should have stopped.
\<close>

lemma chunkSpans_overlap_lost_after_end:
  assumes "0 \<le> overlap" and "overlap < chunkSize"
    and "Suc k < length (chunkSpans L chunkSize overlap maxChunks)"
    and "snd (chunkSpans L chunkSize overlap maxChunks ! k)
           - fst (chunkSpans L chunkSize overlap maxChunks ! Suc k) \<noteq> overlap"
  shows "snd (chunkSpans L chunkSize overlap maxChunks ! k) = L"
proof -
  define sp where "sp = chunkSpans L chunkSize overlap maxChunks"
  obtain s e where se: "sp ! k = (s, e)" by (cases "sp ! k")
  from assms(3) have "sp ! k \<in> set sp" unfolding sp_def by simp
  with se have "(s, e) \<in> set (chunkSpans L chunkSize overlap maxChunks)"
    unfolding sp_def by simp
  from chunkSpans_bounds [OF assms(1,2) this] have b: "0 \<le> s" "e = min (s + chunkSize) L"
    by simp_all
  from chunkSpans_chain [of k L chunkSize overlap maxChunks] assms(3)
  have "fst (sp ! Suc k) = max 0 (e - overlap)" unfolding sp_def using se
    by (simp add: sp_def [symmetric])
  with assms(4) se have "e < overlap" unfolding sp_def [symmetric] by (simp add: max_def split: if_splits)
  with b assms(2) have "e = L" by (simp add: min_def split: if_splits)
  with se show ?thesis unfolding sp_def by simp
qed


section \<open>Properties of generation with retries\<close>

lemma delay_index: "delays ! nat (min (int a) (int (length delays) - 1)) = delays ! min a 3"
proof -
  have "nat (min (int a) (int (length delays) - 1)) = min a 3"
    by (simp add: delays_def min_def)
  then show ?thesis by simp
qed

text \<open>When every attempt fails with a retriable status, the loop for one model runs
  through all remaining attempts, each followed by its wait.\<close>

lemma attemptLoop_all_retriable:
  assumes fails: "\<forall>t m p. \<exists>e. genAI t m p = Inl e \<and> retriable (statusOf e)"
  shows "a + k = n \<Longrightarrow>
     attemptLoop genAI m p (int n) (int a) lastErr log =
       (None,
        (if k = 0 then lastErr else Some (projl (genAI (length log + 2 * (k - 1)) m p))),
        log @ concat (map (\<lambda>a. [Generate m p, Sleep (delays ! min a 3)]) [a..<n]))"
proof (induction k arbitrary: a lastErr log)
  case 0
  then show ?case by (subst attemptLoop.simps) simp
next
  case (Suc k)
  then have an: "a < n" and next_a: "Suc a + k = n" by simp_all
  from fails obtain e where e: "genAI (length log) m p = Inl e" "retriable (statusOf e)"
    by blast
  let ?log = "log @ [Generate m p, Sleep (delays ! min a 3)]"
  have "attemptLoop genAI m p (int n) (int a) lastErr log =
      attemptLoop genAI m p (int n) (int (Suc a)) (Some e) ?log"
    using an e by (subst attemptLoop.simps) (simp add: delay_index Let_def add.commute)
  also have "\<dots> = (None,
      (if k = 0 then Some e else Some (projl (genAI (length ?log + 2 * (k - 1)) m p))),
      ?log @ concat (map (\<lambda>a. [Generate m p, Sleep (delays ! min a 3)]) [Suc a..<n]))"
    by (rule Suc.IH [OF next_a])
  also have "(if k = 0 then Some e else Some (projl (genAI (length ?log + 2 * (k - 1)) m p))) =
      Some (projl (genAI (length log + 2 * (Suc k - 1)) m p))"
  proof (cases k)
    case 0
    with e show ?thesis by simp
  next
    case (Suc j)
    then show ?thesis by (simp add: add.commute add.left_commute)
  qed
  also have "?log @ concat (map (\<lambda>a. [Generate m p, Sleep (delays ! min a 3)]) [Suc a..<n]) =
      log @ concat (map (\<lambda>a. [Generate m p, Sleep (delays ! min a 3)]) [a..<n])"
    using an by (simp add: upt_conv_Cons)
  finally show ?case by simp
qed

lemma length_schedule:
  "length (concat (map (\<lambda>a. [Generate m p, Sleep (delays ! min a 3)]) [a..<n])) = 2 * (n - a)"
  by (induction n) (auto simp: Suc_diff_le)

text \<open>What one run of the inner loop appends to the log: attempts on its own model and
  waits, nothing else.\<close>

lemma attemptLoop_events:
  "attemptLoop genAI m p maxA a le log = (res, le', log') \<Longrightarrow>
     \<exists>ext. log' = log @ ext \<and> (\<forall>ev \<in> set ext. ev = Generate m p \<or> (\<exists>ms. ev = Sleep ms))"
proof (induction genAI m p maxA a le log arbitrary: res le' log' rule: attemptLoop.induct)
  case (1 genAI m p maxA a le log)
  show ?case
  proof (cases "a < maxA")
    case False
    with "1.prems" have "log' = log" by (subst (asm) attemptLoop.simps) simp
    then show ?thesis by simp
  next
    case True
    show ?thesis
    proof (cases "genAI (length log) m p")
      case (Inr tx)
      with True "1.prems" have "log' = log @ [Generate m p]"
        by (subst (asm) attemptLoop.simps) simp
      then show ?thesis by simp
    next
      case (Inl err)
      show ?thesis
      proof (cases "retriable (statusOf err)")
        case False
        with True Inl "1.prems" have "log' = log @ [Generate m p]"
          by (subst (asm) attemptLoop.simps) simp
        then show ?thesis by simp
      next
        case retr: True
        define wait where "wait = delays ! nat (min a (int (length delays) - 1))"
        from True Inl retr "1.prems"
        have rec: "attemptLoop genAI m p maxA (a + 1) (Some err) (log @ [Generate m p, Sleep wait]) =
            (res, le', log')"
          by (subst (asm) attemptLoop.simps) (simp add: wait_def Let_def)
        from "1.IH" [OF True Inl _ wait_def rec] retr
        obtain ext where "log' = (log @ [Generate m p, Sleep wait]) @ ext"
          and "\<forall>ev \<in> set ext. ev = Generate m p \<or> (\<exists>ms. ev = Sleep ms)"
          by auto
        then have "log' = log @ ([Generate m p, Sleep wait] @ ext)"
          and "\<forall>ev \<in> set ([Generate m p, Sleep wait] @ ext). ev = Generate m p \<or> (\<exists>ms. ev = Sleep ms)"
          by auto
        then show ?thesis by blast
      qed
    qed
  qed
qed

text \<open>An attempt that succeeds is the last thing the inner loop does, and its text is the
  result.\<close>

lemma attemptLoop_success_is_last:
  "attemptLoop genAI m p maxA a le log = (res, le', log') \<Longrightarrow>
     length log \<le> k \<Longrightarrow> k < length log' \<Longrightarrow> log' ! k = Generate m' p' \<Longrightarrow>
     genAI k m' p' = Inr t \<Longrightarrow> res = Some t \<and> Suc k = length log'"
proof (induction genAI m p maxA a le log arbitrary: res le' log' rule: attemptLoop.induct)
  case (1 genAI m p maxA a le log)
  show ?case
  proof (cases "a < maxA")
    case False
    with "1.prems"(1) have "log' = log" by (subst (asm) attemptLoop.simps) simp
    with "1.prems"(2,3) show ?thesis by simp
  next
    case True
    show ?thesis
    proof (cases "genAI (length log) m p")
      case (Inr tx)
      with True "1.prems"(1) have r: "log' = log @ [Generate m p]" "res = Some tx"
        by (subst (asm) attemptLoop.simps, simp)+
      with "1.prems"(2,3) have k: "k = length log" by simp
      with r "1.prems"(4) have "m' = m" "p' = p" by simp_all
      with k Inr "1.prems"(5) r show ?thesis by simp
    next
      case (Inl err)
      show ?thesis
      proof (cases "retriable (statusOf err)")
        case False
        with True Inl "1.prems"(1) have r: "log' = log @ [Generate m p]"
          by (subst (asm) attemptLoop.simps) simp
        with "1.prems"(2,3) have k: "k = length log" by simp
        with r "1.prems"(4) have "m' = m" "p' = p" by simp_all
        with k Inl "1.prems"(5) show ?thesis by simp
      next
        case retr: True
        define wait where "wait = delays ! nat (min a (int (length delays) - 1))"
        define log2 where "log2 = log @ [Generate m p, Sleep wait]"
        from True Inl retr "1.prems"(1)
        have rec: "attemptLoop genAI m p maxA (a + 1) (Some err) log2 = (res, le', log')"
          unfolding log2_def by (subst (asm) attemptLoop.simps) (simp add: wait_def Let_def)
        from attemptLoop_events [OF rec] obtain ext where ext: "log' = log2 @ ext" by blast
        consider "k = length log" | "k = Suc (length log)" | "length log2 \<le> k"
          using "1.prems"(2) unfolding log2_def by fastforce
        then show ?thesis
        proof cases
          case 1
          with ext "1.prems"(4) have "m' = m" "p' = p"
            by (simp_all add: log2_def nth_append)
          with 1 Inl "1.prems"(5) show ?thesis by simp
        next
          case 2
          with ext "1.prems"(4) show ?thesis by (simp add: log2_def nth_append)
        next
          case 3
          from retr have nn: "\<not> \<not> retriable (statusOf err)" by simp
          show ?thesis
            using "1.IH" [OF True Inl nn wait_def rec [unfolded log2_def]] 3 "1.prems"(3,4,5)
            unfolding log2_def by blast
        qed
      qed
    qed
  qed
qed

lemma attemptLoop_Some:
  assumes "attemptLoop genAI m p maxA a le log = (Some t, le', log')"
  shows "\<exists>pre. log' = log @ pre @ [Generate m p] \<and> genAI (length (log @ pre)) m p = Inr t"
  using assms
proof (induction genAI m p maxA a le log arbitrary: le' log' rule: attemptLoop.induct)
  case (1 genAI m p maxA a le log)
  show ?case
  proof (cases "a < maxA")
    case False
    with "1.prems" show ?thesis by (subst (asm) attemptLoop.simps) simp
  next
    case True
    show ?thesis
    proof (cases "genAI (length log) m p")
      case (Inr tx)
      with True "1.prems" have "log' = log @ [] @ [Generate m p]" "tx = t"
        by (subst (asm) attemptLoop.simps, simp)+
      with Inr show ?thesis by (intro exI [of _ "[]"]) simp
    next
      case (Inl err)
      show ?thesis
      proof (cases "retriable (statusOf err)")
        case False
        with True Inl "1.prems" show ?thesis by (subst (asm) attemptLoop.simps) simp
      next
        case retr: True
        define wait where "wait = delays ! nat (min a (int (length delays) - 1))"
        from True Inl retr "1.prems"
        have rec: "attemptLoop genAI m p maxA (a + 1) (Some err) (log @ [Generate m p, Sleep wait]) =
            (Some t, le', log')"
          by (subst (asm) attemptLoop.simps) (simp add: wait_def Let_def)
        from retr have nn: "\<not> \<not> retriable (statusOf err)" by simp
        from "1.IH" [OF True Inl nn wait_def rec]
        obtain pre where pre: "log' = (log @ [Generate m p, Sleep wait]) @ pre @ [Generate m p]"
          "genAI (length ((log @ [Generate m p, Sleep wait]) @ pre)) m p = Inr t"
          by blast
        show ?thesis
          by (intro exI [of _ "[Generate m p, Sleep wait] @ pre"]) (use pre in simp)
      qed
    qed
  qed
qed

text \<open>When there is room for an attempt, the first thing the inner loop does is to call
  its model.\<close>

lemma attemptLoop_first:
  assumes "a < maxA" and "attemptLoop genAI m p maxA a le log = (res, le', log')"
  shows "\<exists>rest. log' = log @ Generate m p # rest \<and>
           (\<forall>ev \<in> set rest. ev = Generate m p \<or> (\<exists>ms. ev = Sleep ms))"
proof -
  from attemptLoop_events [OF assms(2)] obtain ext where ext: "log' = log @ ext"
    "\<forall>ev \<in> set ext. ev = Generate m p \<or> (\<exists>ms. ev = Sleep ms)" by blast
  have "\<exists>rest. ext = Generate m p # rest"
  proof (cases "genAI (length log) m p")
    case (Inr tx)
    with assms have "log' = log @ [Generate m p]" by (subst (asm) attemptLoop.simps) simp
    with ext(1) show ?thesis by auto
  next
    case (Inl err)
    show ?thesis
    proof (cases "retriable (statusOf err)")
      case False
      with Inl assms have "log' = log @ [Generate m p]" by (subst (asm) attemptLoop.simps) simp
      with ext(1) show ?thesis by auto
    next
      case True
      define wait where "wait = delays ! nat (min a (int (length delays) - 1))"
      from True Inl assms
      have "attemptLoop genAI m p maxA (a + 1) (Some err) (log @ [Generate m p, Sleep wait]) =
          (res, le', log')"
        by (subst (asm) attemptLoop.simps) (simp add: wait_def Let_def)
      from attemptLoop_events [OF this] ext(1) show ?thesis by auto
    qed
  qed
  with ext show ?thesis by auto
qed

lemma attemptLoop_nonretriable:
  assumes "genAI (length log) m p = Inl e" and "\<not> retriable (statusOf e)" and "a < maxA"
  shows "attemptLoop genAI m p maxA a le log = (None, Some e, log @ [Generate m p])"
  using assms by (subst attemptLoop.simps) simp

lemma modelLoop_extends:
  "modelLoop genAI ms p maxA le log = (r, log') \<Longrightarrow> \<exists>ext. log' = log @ ext"
proof (induction ms arbitrary: le log)
  case Nil
  then show ?case by simp
next
  case (Cons m ms)
  obtain res le1 log1 where al: "attemptLoop genAI m p maxA 0 le log = (res, le1, log1)"
    by (cases "attemptLoop genAI m p maxA 0 le log") auto
  from attemptLoop_events [OF al] obtain ext1 where e1: "log1 = log @ ext1" by blast
  show ?case
  proof (cases res)
    case None
    with al Cons.prems have "modelLoop genAI ms p maxA le1 log1 = (r, log')" by simp
    from Cons.IH [OF this] e1 show ?thesis by auto
  next
    case (Some tx)
    with al Cons.prems e1 show ?thesis by auto
  qed
qed

lemma modelLoop_success_is_last:
  "modelLoop genAI ms p maxA le log = (r, log') \<Longrightarrow>
     length log \<le> k \<Longrightarrow> k < length log' \<Longrightarrow> log' ! k = Generate m' p' \<Longrightarrow>
     genAI k m' p' = Inr t \<Longrightarrow> r = Inr t \<and> Suc k = length log'"
proof (induction ms arbitrary: le log)
  case Nil
  then show ?case by simp
next
  case (Cons m ms)
  obtain res le1 log1 where al: "attemptLoop genAI m p maxA 0 le log = (res, le1, log1)"
    by (cases "attemptLoop genAI m p maxA 0 le log") auto
  from attemptLoop_events [OF al] obtain ext1 where e1: "log1 = log @ ext1" by blast
  show ?case
  proof (cases res)
    case (Some tx)
    with al Cons.prems(1) have "r = Inr tx" "log' = log1" by simp_all
    with attemptLoop_success_is_last [OF al Cons.prems(2)] Cons.prems(3,4,5) Some
    show ?thesis by auto
  next
    case None
    with al Cons.prems(1) have rest: "modelLoop genAI ms p maxA le1 log1 = (r, log')" by simp
    from modelLoop_extends [OF rest] obtain ext2 where e2: "log' = log1 @ ext2" by blast
    show ?thesis
    proof (cases "k < length log1")
      case True
      with e2 Cons.prems(4) have "log1 ! k = Generate m' p'" by (simp add: nth_append)
      from attemptLoop_success_is_last [OF al Cons.prems(2) True this Cons.prems(5)] None
      show ?thesis by simp
    next
      case False
      then have "length log1 \<le> k" by simp
      from Cons.IH [OF rest this Cons.prems(3,4,5)] show ?thesis .
    qed
  qed
qed

lemma modelLoop_Inr:
  "modelLoop genAI ms p maxA le log = (Inr t, log') \<Longrightarrow>
     \<exists>pre m. log' = log @ pre @ [Generate m p] \<and> genAI (length (log @ pre)) m p = Inr t"
proof (induction ms arbitrary: le log)
  case Nil
  then show ?case by simp
next
  case (Cons m ms)
  obtain res le1 log1 where al: "attemptLoop genAI m p maxA 0 le log = (res, le1, log1)"
    by (cases "attemptLoop genAI m p maxA 0 le log") auto
  show ?case
  proof (cases res)
    case (Some tx)
    with al Cons.prems have "tx = t" "log' = log1" by simp_all
    with attemptLoop_Some [of genAI m p maxA 0 le log t le1 log1] al Some
    show ?thesis by blast
  next
    case None
    with al Cons.prems have rest: "modelLoop genAI ms p maxA le1 log1 = (Inr t, log')" by simp
    from attemptLoop_events [OF al] obtain ext1 where e1: "log1 = log @ ext1" by blast
    from Cons.IH [OF rest] obtain pre m2 where
      "log' = log1 @ pre @ [Generate m2 p]" "genAI (length (log1 @ pre)) m2 p = Inr t" by blast
    with e1 have "log' = log @ (ext1 @ pre) @ [Generate m2 p]"
      "genAI (length (log @ (ext1 @ pre))) m2 p = Inr t" by simp_all
    then show ?thesis by blast
  qed
qed

text \<open>
  Claim C3. When every generation attempt fails with a retriable status (429, 500, 502,
  503, 504), \<open>generateWithRetries\<close> with \<open>maxAttempts = n\<close> calls the primary model
  \<open>n\<close> times, then the fallback model \<open>n\<close> times, and nothing else; the failure at attempt
  index \<open>a\<close> is followed by a wait of \<open>delays[min(a, 3)]\<close> milliseconds; it then throws
  the error of the last attempt (the value \<open>lastErr\<close> is still undefined when \<open>n = 0\<close>).
\<close>

theorem generateWithRetries_all_retriable:
  assumes "\<forall>t m p. \<exists>e. genAI t m p = Inl e \<and> retriable (statusOf e)"
  shows "generateWithRetries genAI fallbackModel primaryModel prompt (int n) log =
     (Inl (if n = 0 then None
           else Some (projl (genAI (length log + 4 * n - 2) fallbackModel prompt))),
      log @ concat (map (\<lambda>a. [Generate primaryModel prompt, Sleep (delays ! min a 3)]) [0..<n])
          @ concat (map (\<lambda>a. [Generate fallbackModel prompt, Sleep (delays ! min a 3)]) [0..<n]))"
proof -
  let ?sched = "\<lambda>m. concat (map (\<lambda>a. [Generate m prompt, Sleep (delays ! min a 3)]) [0..<n])"
  let ?log1 = "log @ ?sched primaryModel"
  let ?le1 = "if n = 0 then None
              else Some (projl (genAI (length log + 2 * (n - 1)) primaryModel prompt))"
  have first: "attemptLoop genAI primaryModel prompt (int n) 0 None log = (None, ?le1, ?log1)"
    using attemptLoop_all_retriable [OF assms, of 0 n n primaryModel prompt None log] by simp
  have len1: "length ?log1 = length log + 2 * n"
    using length_schedule [of primaryModel prompt 0 n] by simp
  have second: "attemptLoop genAI fallbackModel prompt (int n) 0 ?le1 ?log1 =
      (None,
       (if n = 0 then ?le1
        else Some (projl (genAI (length ?log1 + 2 * (n - 1)) fallbackModel prompt))),
       ?log1 @ ?sched fallbackModel)"
    using attemptLoop_all_retriable [OF assms, of 0 n n fallbackModel prompt ?le1 ?log1] by simp
  have idx: "length ?log1 + 2 * (n - 1) = length log + 4 * n - 2" if "n \<noteq> 0"
    unfolding len1 using that by simp
  have last_err: "(if n = 0 then ?le1
        else Some (projl (genAI (length ?log1 + 2 * (n - 1)) fallbackModel prompt))) =
      (if n = 0 then None
       else Some (projl (genAI (length log + 4 * n - 2) fallbackModel prompt)))"
    using idx by (cases "n = 0") simp_all
  have "modelLoop genAI [primaryModel, fallbackModel] prompt (int n) None log =
      modelLoop genAI [fallbackModel] prompt (int n) ?le1 ?log1"
    by (simp add: first)
  also have "\<dots> = (Inl (if n = 0 then ?le1
        else Some (projl (genAI (length ?log1 + 2 * (n - 1)) fallbackModel prompt))),
       ?log1 @ ?sched fallbackModel)"
    by (simp only: modelLoop.simps second prod.case option.case)
  finally show ?thesis
    unfolding generateWithRetries_def Let_def last_err by simp
qed

theorem generateWithRetries_all_retriable_witness:
  "(\<forall>t m p. \<exists>e. (\<lambda>t m p. Inl \<lparr>err_status = Some 503, err_response_status = None,
                err_message = ''overloaded''\<rparr> :: js_error + string) t m p = Inl e
        \<and> retriable (statusOf e))
   \<and> generateWithRetries
        (\<lambda>t m p. Inl \<lparr>err_status = Some 503, err_response_status = None,
                      err_message = ''overloaded''\<rparr>)
        ''gemini-1.5-flash-8b'' ''gemini-1.5-flash'' ''q'' 4 [] =
      (Inl (Some \<lparr>err_status = Some 503, err_response_status = None,
                  err_message = ''overloaded''\<rparr>),
       [Generate ''gemini-1.5-flash'' ''q'', Sleep 400,
        Generate ''gemini-1.5-flash'' ''q'', Sleep 800,
        Generate ''gemini-1.5-flash'' ''q'', Sleep 1600,
        Generate ''gemini-1.5-flash'' ''q'', Sleep 3200,
        Generate ''gemini-1.5-flash-8b'' ''q'', Sleep 400,
        Generate ''gemini-1.5-flash-8b'' ''q'', Sleep 800,
        Generate ''gemini-1.5-flash-8b'' ''q'', Sleep 1600,
        Generate ''gemini-1.5-flash-8b'' ''q'', Sleep 3200])"
proof -
  define genAI :: gen_service where
    "genAI = (\<lambda>t m p. Inl \<lparr>err_status = Some 503, err_response_status = None,
                err_message = ''overloaded''\<rparr>)"
  have h: "\<forall>t m p. \<exists>e. genAI t m p = Inl e \<and> retriable (statusOf e)"
    by (simp add: genAI_def statusOf_def retriable_def)
  have up: "[0..<4] = [0, 1, 2, 3]" by (simp add: upt_rec)
  from generateWithRetries_all_retriable [OF h, of "''gemini-1.5-flash-8b''"
      "''gemini-1.5-flash''" "''q''" 4 "[]"]
  have "generateWithRetries genAI ''gemini-1.5-flash-8b'' ''gemini-1.5-flash'' ''q'' 4 [] =
      (Inl (Some \<lparr>err_status = Some 503, err_response_status = None,
                  err_message = ''overloaded''\<rparr>),
       [Generate ''gemini-1.5-flash'' ''q'', Sleep 400,
        Generate ''gemini-1.5-flash'' ''q'', Sleep 800,
        Generate ''gemini-1.5-flash'' ''q'', Sleep 1600,
        Generate ''gemini-1.5-flash'' ''q'', Sleep 3200,
        Generate ''gemini-1.5-flash-8b'' ''q'', Sleep 400,
        Generate ''gemini-1.5-flash-8b'' ''q'', Sleep 800,
        Generate ''gemini-1.5-flash-8b'' ''q'', Sleep 1600,
        Generate ''gemini-1.5-flash-8b'' ''q'', Sleep 3200])"
    by (simp add: up delays_def genAI_def)
  with h show ?thesis unfolding genAI_def by blast
qed

text \<open>The inner loop when the attempts before attempt \<open>a + k\<close> fail with a retriable
  status: it returns the text of that attempt when it succeeds, gives the model up when
  it fails with another status, and runs out of attempts otherwise.\<close>

lemma attemptLoop_succeeds_after:
  assumes "int (a + k) < maxA"
    and "\<forall>j<k. \<exists>e. genAI (length log + 2 * j) m p = Inl e \<and> retriable (statusOf e)"
    and "genAI (length log + 2 * k) m p = Inr t"
  shows "\<exists>le'. attemptLoop genAI m p maxA (int a) le log =
      (Some t, le',
       log @ concat (map (\<lambda>a. [Generate m p, Sleep (delays ! min a 3)]) [a..<a + k])
           @ [Generate m p])"
  using assms
proof (induction k arbitrary: a le log)
  case 0
  then show ?case by (subst attemptLoop.simps) simp
next
  case (Suc k)
  from Suc.prems(2) obtain e where e: "genAI (length log) m p = Inl e" "retriable (statusOf e)"
    by force
  let ?log = "log @ [Generate m p, Sleep (delays ! min a 3)]"
  have an: "int a < maxA" using Suc.prems(1) by simp
  have step: "attemptLoop genAI m p maxA (int a) le log =
      attemptLoop genAI m p maxA (int (Suc a)) (Some e) ?log"
    using an e by (subst attemptLoop.simps) (simp add: delay_index Let_def add.commute)
  have h1: "int (Suc a + k) < maxA" using Suc.prems(1) by simp
  have h2: "\<forall>j<k. \<exists>e. genAI (length ?log + 2 * j) m p = Inl e \<and> retriable (statusOf e)"
  proof (intro allI impI)
    fix j assume "j < k"
    then have "Suc j < Suc k" by simp
    with Suc.prems(2) have "\<exists>e. genAI (length log + 2 * Suc j) m p = Inl e \<and> retriable (statusOf e)"
      by blast
    then show "\<exists>e. genAI (length ?log + 2 * j) m p = Inl e \<and> retriable (statusOf e)"
      by (simp add: add.commute add.left_commute)
  qed
  have h3: "genAI (length ?log + 2 * k) m p = Inr t"
    using Suc.prems(3) by (simp add: add.commute add.left_commute)
  from Suc.IH [OF h1 h2 h3, of "Some e"] obtain le' where
    "attemptLoop genAI m p maxA (int (Suc a)) (Some e) ?log =
      (Some t, le',
       ?log @ concat (map (\<lambda>a. [Generate m p, Sleep (delays ! min a 3)]) [Suc a..<Suc a + k])
           @ [Generate m p])"
    by blast
  moreover have "[a..<a + Suc k] = a # [Suc a..<Suc a + k]"
    by (simp add: upt_conv_Cons)
  ultimately show ?case unfolding step by simp
qed

lemma attemptLoop_gives_up_after:
  assumes "int (a + k) < maxA"
    and "\<forall>j<k. \<exists>e. genAI (length log + 2 * j) m p = Inl e \<and> retriable (statusOf e)"
    and "genAI (length log + 2 * k) m p = Inl err" and "\<not> retriable (statusOf err)"
  shows "attemptLoop genAI m p maxA (int a) le log =
      (None, Some err,
       log @ concat (map (\<lambda>a. [Generate m p, Sleep (delays ! min a 3)]) [a..<a + k])
           @ [Generate m p])"
  using assms
proof (induction k arbitrary: a le log)
  case 0
  then show ?case by (subst attemptLoop.simps) simp
next
  case (Suc k)
  from Suc.prems(2) obtain e where e: "genAI (length log) m p = Inl e" "retriable (statusOf e)"
    by force
  let ?log = "log @ [Generate m p, Sleep (delays ! min a 3)]"
  have an: "int a < maxA" using Suc.prems(1) by simp
  have step: "attemptLoop genAI m p maxA (int a) le log =
      attemptLoop genAI m p maxA (int (Suc a)) (Some e) ?log"
    using an e by (subst attemptLoop.simps) (simp add: delay_index Let_def add.commute)
  have h1: "int (Suc a + k) < maxA" using Suc.prems(1) by simp
  have h2: "\<forall>j<k. \<exists>e. genAI (length ?log + 2 * j) m p = Inl e \<and> retriable (statusOf e)"
  proof (intro allI impI)
    fix j assume "j < k"
    then have "Suc j < Suc k" by simp
    with Suc.prems(2) have "\<exists>e. genAI (length log + 2 * Suc j) m p = Inl e \<and> retriable (statusOf e)"
      by blast
    then show "\<exists>e. genAI (length ?log + 2 * j) m p = Inl e \<and> retriable (statusOf e)"
      by (simp add: add.commute add.left_commute)
  qed
  have h3: "genAI (length ?log + 2 * k) m p = Inl err"
    using Suc.prems(3) by (simp add: add.commute add.left_commute)
  have "attemptLoop genAI m p maxA (int (Suc a)) (Some e) ?log =
      (None, Some err,
       ?log @ concat (map (\<lambda>a. [Generate m p, Sleep (delays ! min a 3)]) [Suc a..<Suc a + k])
           @ [Generate m p])"
    by (rule Suc.IH [OF h1 h2 h3 Suc.prems(4)])
  moreover have "[a..<a + Suc k] = a # [Suc a..<Suc a + k]"
    by (simp add: upt_conv_Cons)
  ultimately show ?case unfolding step by simp
qed

lemma attemptLoop_runs_out:
  assumes "\<forall>j<k. \<exists>e. genAI (length log + 2 * j) m p = Inl e \<and> retriable (statusOf e)"
  shows "\<exists>le'. attemptLoop genAI m p (int (a + k)) (int a) le log =
      (None, le',
       log @ concat (map (\<lambda>a. [Generate m p, Sleep (delays ! min a 3)]) [a..<a + k]))"
  using assms
proof (induction k arbitrary: a le log)
  case 0
  then show ?case by (subst attemptLoop.simps) simp
next
  case (Suc k)
  from Suc.prems obtain e where e: "genAI (length log) m p = Inl e" "retriable (statusOf e)"
    by force
  let ?log = "log @ [Generate m p, Sleep (delays ! min a 3)]"
  have step: "attemptLoop genAI m p (int (a + Suc k)) (int a) le log =
      attemptLoop genAI m p (int (Suc a + k)) (int (Suc a)) (Some e) ?log"
    using e by (subst attemptLoop.simps) (simp add: delay_index Let_def add.commute)
  have h2: "\<forall>j<k. \<exists>e. genAI (length ?log + 2 * j) m p = Inl e \<and> retriable (statusOf e)"
  proof (intro allI impI)
    fix j assume "j < k"
    then have "Suc j < Suc k" by simp
    with Suc.prems have "\<exists>e. genAI (length log + 2 * Suc j) m p = Inl e \<and> retriable (statusOf e)"
      by blast
    then show "\<exists>e. genAI (length ?log + 2 * j) m p = Inl e \<and> retriable (statusOf e)"
      by (simp add: add.commute add.left_commute)
  qed
  from Suc.IH [OF h2, of "Suc a" "Some e"] obtain le' where
    "attemptLoop genAI m p (int (Suc a + k)) (int (Suc a)) (Some e) ?log =
      (None, le',
       ?log @ concat (map (\<lambda>a. [Generate m p, Sleep (delays ! min a 3)]) [Suc a..<Suc a + k]))"
    by blast
  moreover have "[a..<a + Suc k] = a # [Suc a..<Suc a + k]"
    by (simp add: upt_conv_Cons)
  ultimately show ?case unfolding step by simp
qed

text \<open>
  Claim C4. In every run of \<open>generateWithRetries\<close>: if the first attempt on the primary
  model fails with a status that is not retriable, the log continues with that one
  attempt on the primary model, immediately followed (no wait) by an attempt on the
  fallback model, and everything after it is an attempt on the fallback model or a wait;
  an attempt that succeeds is the last event of the run and its text is the result; and
  a run that returns a text ends with the attempt that produced it. A success is
  returned as soon as it happens: when attempt \<open>k\<close> on the primary model succeeds after
  \<open>k\<close> retriable failures, the run returns its text and the log holds those attempts
  with their waits and nothing on the fallback model; when the primary model is given up
  (by a non-retriable failure at attempt \<open>j\<close>, or after all its attempts failed
  retriably) and attempt \<open>k\<close> on the fallback model succeeds after \<open>k\<close> retriable
  failures, the run returns that text and ends with that attempt.
\<close>

theorem generateWithRetries_fallback_and_success:
  assumes "generateWithRetries genAI fallbackModel primaryModel prompt maxAttempts log = (r, log')"
  shows "(\<forall>e. genAI (length log) primaryModel prompt = Inl e \<and> \<not> retriable (statusOf e)
              \<and> 0 < maxAttempts \<longrightarrow>
            (\<exists>rest. log' = log @ [Generate primaryModel prompt, Generate fallbackModel prompt] @ rest
               \<and> (\<forall>ev \<in> set rest. ev = Generate fallbackModel prompt \<or> (\<exists>ms. ev = Sleep ms))))
       \<and> (\<forall>k m p t. length log \<le> k \<and> k < length log' \<and> log' ! k = Generate m p
              \<and> genAI k m p = Inr t \<longrightarrow> r = Inr t \<and> Suc k = length log')
       \<and> (\<forall>t. r = Inr t \<longrightarrow>
            (\<exists>pre m. log' = log @ pre @ [Generate m prompt]
               \<and> genAI (length (log @ pre)) m prompt = Inr t))
       \<and> (\<forall>k t. int k < maxAttempts
              \<and> (\<forall>i<k. \<exists>e. genAI (length log + 2 * i) primaryModel prompt = Inl e
                       \<and> retriable (statusOf e))
              \<and> genAI (length log + 2 * k) primaryModel prompt = Inr t \<longrightarrow>
            r = Inr t
            \<and> log' = log
                @ concat (map (\<lambda>a. [Generate primaryModel prompt, Sleep (delays ! min a 3)]) [0..<k])
                @ [Generate primaryModel prompt])
       \<and> (\<forall>j k e t. int j < maxAttempts \<and> int k < maxAttempts
              \<and> (\<forall>i<j. \<exists>e. genAI (length log + 2 * i) primaryModel prompt = Inl e
                       \<and> retriable (statusOf e))
              \<and> genAI (length log + 2 * j) primaryModel prompt = Inl e
              \<and> \<not> retriable (statusOf e)
              \<and> (\<forall>i<k. \<exists>e. genAI (length log + 2 * j + 1 + 2 * i) fallbackModel prompt = Inl e
                       \<and> retriable (statusOf e))
              \<and> genAI (length log + 2 * j + 1 + 2 * k) fallbackModel prompt = Inr t \<longrightarrow>
            r = Inr t
            \<and> log' = log
                @ concat (map (\<lambda>a. [Generate primaryModel prompt, Sleep (delays ! min a 3)]) [0..<j])
                @ [Generate primaryModel prompt]
                @ concat (map (\<lambda>a. [Generate fallbackModel prompt, Sleep (delays ! min a 3)]) [0..<k])
                @ [Generate fallbackModel prompt])
       \<and> (\<forall>n k t. maxAttempts = int n \<and> k < n
              \<and> (\<forall>i<n. \<exists>e. genAI (length log + 2 * i) primaryModel prompt = Inl e
                       \<and> retriable (statusOf e))
              \<and> (\<forall>i<k. \<exists>e. genAI (length log + 2 * n + 2 * i) fallbackModel prompt = Inl e
                       \<and> retriable (statusOf e))
              \<and> genAI (length log + 2 * n + 2 * k) fallbackModel prompt = Inr t \<longrightarrow>
            r = Inr t
            \<and> log' = log
                @ concat (map (\<lambda>a. [Generate primaryModel prompt, Sleep (delays ! min a 3)]) [0..<n])
                @ concat (map (\<lambda>a. [Generate fallbackModel prompt, Sleep (delays ! min a 3)]) [0..<k])
                @ [Generate fallbackModel prompt])"
proof -
  have run: "modelLoop genAI [primaryModel, fallbackModel] prompt maxAttempts None log = (r, log')"
    using assms unfolding generateWithRetries_def Let_def .
  let ?sched = "\<lambda>m a b. concat (map (\<lambda>a. [Generate m prompt, Sleep (delays ! min a 3)]) [a..<b])"
  have c1: "\<exists>rest. log' = log @ [Generate primaryModel prompt, Generate fallbackModel prompt] @ rest
      \<and> (\<forall>ev \<in> set rest. ev = Generate fallbackModel prompt \<or> (\<exists>ms. ev = Sleep ms))"
    if a: "genAI (length log) primaryModel prompt = Inl e \<and> \<not> retriable (statusOf e)
      \<and> 0 < maxAttempts" for e
  proof -
    from a have first: "attemptLoop genAI primaryModel prompt maxAttempts 0 None log =
        (None, Some e, log @ [Generate primaryModel prompt])"
      by (intro attemptLoop_nonretriable) simp_all
    obtain res le2 log2 where second:
      "attemptLoop genAI fallbackModel prompt maxAttempts 0 (Some e)
         (log @ [Generate primaryModel prompt]) = (res, le2, log2)"
      by (cases "attemptLoop genAI fallbackModel prompt maxAttempts 0 (Some e)
         (log @ [Generate primaryModel prompt])") auto
    have "modelLoop genAI [primaryModel, fallbackModel] prompt maxAttempts None log =
        modelLoop genAI [fallbackModel] prompt maxAttempts (Some e) (log @ [Generate primaryModel prompt])"
      by (simp add: first)
    also have "snd \<dots> = log2"
      by (cases res) (simp_all add: second)
    finally have "log' = log2"
      using run by simp
    moreover from a attemptLoop_first [OF _ second]
    obtain rest where "log2 = (log @ [Generate primaryModel prompt]) @ Generate fallbackModel prompt # rest"
      and "\<forall>ev \<in> set rest. ev = Generate fallbackModel prompt \<or> (\<exists>ms. ev = Sleep ms)"
      by blast
    ultimately show ?thesis by auto
  qed
  have c2: "r = Inr t \<and> Suc k = length log'"
    if "length log \<le> k \<and> k < length log' \<and> log' ! k = Generate m p \<and> genAI k m p = Inr t"
    for k m p t
    using modelLoop_success_is_last [OF run, of k m p t] that by blast
  have c3: "\<exists>pre m. log' = log @ pre @ [Generate m prompt]
      \<and> genAI (length (log @ pre)) m prompt = Inr t" if "r = Inr t" for t
    using modelLoop_Inr [of genAI "[primaryModel, fallbackModel]" prompt maxAttempts None log t log']
      run that by blast
  have c4: "r = Inr t \<and> log' = log @ ?sched primaryModel 0 k @ [Generate primaryModel prompt]"
    if a: "int k < maxAttempts
        \<and> (\<forall>i<k. \<exists>e. genAI (length log + 2 * i) primaryModel prompt = Inl e
                 \<and> retriable (statusOf e))
        \<and> genAI (length log + 2 * k) primaryModel prompt = Inr t" for k t
  proof -
    from a attemptLoop_succeeds_after [of 0 k maxAttempts genAI log primaryModel prompt t None]
    obtain le' where "attemptLoop genAI primaryModel prompt maxAttempts 0 None log =
        (Some t, le', log @ ?sched primaryModel 0 k @ [Generate primaryModel prompt])"
      by auto
    then have "modelLoop genAI [primaryModel, fallbackModel] prompt maxAttempts None log =
        (Inr t, log @ ?sched primaryModel 0 k @ [Generate primaryModel prompt])"
      by simp
    with run show ?thesis by simp
  qed
  have fallback: "r = Inr t \<and> log' = log1 @ ?sched fallbackModel 0 k @ [Generate fallbackModel prompt]"
    if first: "attemptLoop genAI primaryModel prompt maxAttempts 0 None log = (None, le1, log1)"
      and k: "int k < maxAttempts"
      and fails: "\<forall>i<k. \<exists>e. genAI (length log1 + 2 * i) fallbackModel prompt = Inl e
                 \<and> retriable (statusOf e)"
      and ok: "genAI (length log1 + 2 * k) fallbackModel prompt = Inr t" for le1 log1 k t
  proof -
    from attemptLoop_succeeds_after [of 0 k maxAttempts genAI log1 fallbackModel prompt t le1] k fails ok
    obtain le' where "attemptLoop genAI fallbackModel prompt maxAttempts 0 le1 log1 =
        (Some t, le', log1 @ ?sched fallbackModel 0 k @ [Generate fallbackModel prompt])"
      by auto
    with first have "modelLoop genAI [primaryModel, fallbackModel] prompt maxAttempts None log =
        (Inr t, log1 @ ?sched fallbackModel 0 k @ [Generate fallbackModel prompt])"
      by simp
    with run show ?thesis by simp
  qed
  have c5: "r = Inr t \<and> log' = log @ ?sched primaryModel 0 j @ [Generate primaryModel prompt]
        @ ?sched fallbackModel 0 k @ [Generate fallbackModel prompt]"
    if a: "int j < maxAttempts \<and> int k < maxAttempts
        \<and> (\<forall>i<j. \<exists>e. genAI (length log + 2 * i) primaryModel prompt = Inl e
                 \<and> retriable (statusOf e))
        \<and> genAI (length log + 2 * j) primaryModel prompt = Inl e
        \<and> \<not> retriable (statusOf e)
        \<and> (\<forall>i<k. \<exists>e. genAI (length log + 2 * j + 1 + 2 * i) fallbackModel prompt = Inl e
                 \<and> retriable (statusOf e))
        \<and> genAI (length log + 2 * j + 1 + 2 * k) fallbackModel prompt = Inr t" for j k e t
  proof -
    let ?log1 = "log @ ?sched primaryModel 0 j @ [Generate primaryModel prompt]"
    from a attemptLoop_gives_up_after [of 0 j maxAttempts genAI log primaryModel prompt e None]
    have first: "attemptLoop genAI primaryModel prompt maxAttempts 0 None log = (None, Some e, ?log1)"
      by auto
    have len: "length ?log1 = length log + 2 * j + 1"
      using length_schedule [of primaryModel prompt 0 j] by simp
    from fallback [OF first, of k t] a show ?thesis unfolding len by simp
  qed
  have c6: "r = Inr t \<and> log' = log @ ?sched primaryModel 0 n
        @ ?sched fallbackModel 0 k @ [Generate fallbackModel prompt]"
    if a: "maxAttempts = int n \<and> k < n
        \<and> (\<forall>i<n. \<exists>e. genAI (length log + 2 * i) primaryModel prompt = Inl e
                 \<and> retriable (statusOf e))
        \<and> (\<forall>i<k. \<exists>e. genAI (length log + 2 * n + 2 * i) fallbackModel prompt = Inl e
                 \<and> retriable (statusOf e))
        \<and> genAI (length log + 2 * n + 2 * k) fallbackModel prompt = Inr t" for n k t
  proof -
    let ?log1 = "log @ ?sched primaryModel 0 n"
    from a attemptLoop_runs_out [of n genAI log primaryModel prompt 0 None]
    obtain le1 where first: "attemptLoop genAI primaryModel prompt maxAttempts 0 None log =
        (None, le1, ?log1)"
      by auto
    have len: "length ?log1 = length log + 2 * n"
      using length_schedule [of primaryModel prompt 0 n] by simp
    from fallback [OF first, of k t] a show ?thesis unfolding len by simp
  qed
  from c1 c2 c3 c4 c5 c6 show ?thesis by blast
qed

theorem generateWithRetries_fallback_and_success_witness:
  "\<not> retriable (statusOf \<lparr>err_status = Some 400, err_response_status = None,
                                   err_message = ''bad request''\<rparr>)
   \<and> generateWithRetries
      (\<lambda>t m p. if t = 0 then Inl \<lparr>err_status = Some 400, err_response_status = None,
                                   err_message = ''bad request''\<rparr> else Inr ''answer'')
      ''gemini-1.5-flash-8b'' ''gemini-1.5-flash'' ''q'' 4 [] =
     (Inr ''answer'', [Generate ''gemini-1.5-flash'' ''q'', Generate ''gemini-1.5-flash-8b'' ''q''])
   \<and> generateWithRetries (\<lambda>t m p. Inr ''answer'')
      ''gemini-1.5-flash-8b'' ''gemini-1.5-flash'' ''q'' 4 [] =
     (Inr ''answer'', [Generate ''gemini-1.5-flash'' ''q''])"
proof -
  define genAI :: gen_service where
    "genAI = (\<lambda>t m p. if t = 0 then Inl \<lparr>err_status = Some 400, err_response_status = None,
                                   err_message = ''bad request''\<rparr> else Inr ''answer'')"
  define healthy :: gen_service where "healthy = (\<lambda>t m p. Inr ''answer'')"
  define e where "e = \<lparr>err_status = Some 400, err_response_status = None,
                                   err_message = ''bad request''\<rparr>"
  have nr: "\<not> retriable (statusOf e)" by (simp add: e_def statusOf_def retriable_def)
  have hyp: "int 0 < 4 \<and> int 0 < 4
      \<and> (\<forall>i<0. \<exists>e. genAI (length ([]::event list) + 2 * i) ''gemini-1.5-flash'' ''q'' = Inl e
               \<and> retriable (statusOf e))
      \<and> genAI (length ([]::event list) + 2 * 0) ''gemini-1.5-flash'' ''q'' = Inl e
      \<and> \<not> retriable (statusOf e)
      \<and> (\<forall>i<0. \<exists>e. genAI (length ([]::event list) + 2 * 0 + 1 + 2 * i) ''gemini-1.5-flash-8b'' ''q'' = Inl e
               \<and> retriable (statusOf e))
      \<and> genAI (length ([]::event list) + 2 * 0 + 1 + 2 * 0) ''gemini-1.5-flash-8b'' ''q'' = Inr ''answer''"
    using nr by (simp add: genAI_def e_def)
  have run: "generateWithRetries genAI ''gemini-1.5-flash-8b'' ''gemini-1.5-flash'' ''q'' 4 [] =
      (fst (generateWithRetries genAI ''gemini-1.5-flash-8b'' ''gemini-1.5-flash'' ''q'' 4 []),
       snd (generateWithRetries genAI ''gemini-1.5-flash-8b'' ''gemini-1.5-flash'' ''q'' 4 []))"
    by simp
  from generateWithRetries_fallback_and_success [OF run] hyp
  have "fst (generateWithRetries genAI ''gemini-1.5-flash-8b'' ''gemini-1.5-flash'' ''q'' 4 []) =
        Inr ''answer''
      \<and> snd (generateWithRetries genAI ''gemini-1.5-flash-8b'' ''gemini-1.5-flash'' ''q'' 4 []) =
        []
        @ concat (map (\<lambda>a. [Generate ''gemini-1.5-flash'' ''q'', Sleep (delays ! min a 3)]) [0..<0])
        @ [Generate ''gemini-1.5-flash'' ''q'']
        @ concat (map (\<lambda>a. [Generate ''gemini-1.5-flash-8b'' ''q'', Sleep (delays ! min a 3)]) [0..<0])
        @ [Generate ''gemini-1.5-flash-8b'' ''q'']"
    by blast
  then have first: "generateWithRetries genAI ''gemini-1.5-flash-8b'' ''gemini-1.5-flash'' ''q'' 4 [] =
      (Inr ''answer'', [Generate ''gemini-1.5-flash'' ''q'', Generate ''gemini-1.5-flash-8b'' ''q''])"
    by (simp add: prod_eq_iff)
  have hyp2: "int 0 < 4
      \<and> (\<forall>i<0. \<exists>e. healthy (length ([]::event list) + 2 * i) ''gemini-1.5-flash'' ''q'' = Inl e
               \<and> retriable (statusOf e))
      \<and> healthy (length ([]::event list) + 2 * 0) ''gemini-1.5-flash'' ''q'' = Inr ''answer''"
    by (simp add: healthy_def)
  have run2: "generateWithRetries healthy ''gemini-1.5-flash-8b'' ''gemini-1.5-flash'' ''q'' 4 [] =
      (fst (generateWithRetries healthy ''gemini-1.5-flash-8b'' ''gemini-1.5-flash'' ''q'' 4 []),
       snd (generateWithRetries healthy ''gemini-1.5-flash-8b'' ''gemini-1.5-flash'' ''q'' 4 []))"
    by simp
  from generateWithRetries_fallback_and_success [OF run2] hyp2
  have "fst (generateWithRetries healthy ''gemini-1.5-flash-8b'' ''gemini-1.5-flash'' ''q'' 4 []) =
        Inr ''answer''
      \<and> snd (generateWithRetries healthy ''gemini-1.5-flash-8b'' ''gemini-1.5-flash'' ''q'' 4 []) =
        []
        @ concat (map (\<lambda>a. [Generate ''gemini-1.5-flash'' ''q'', Sleep (delays ! min a 3)]) [0..<0])
        @ [Generate ''gemini-1.5-flash'' ''q'']"
    by blast
  then have second: "generateWithRetries healthy ''gemini-1.5-flash-8b'' ''gemini-1.5-flash'' ''q'' 4 [] =
      (Inr ''answer'', [Generate ''gemini-1.5-flash'' ''q''])"
    by (simp add: prod_eq_iff)
  from nr first second show ?thesis unfolding genAI_def healthy_def e_def by simp
qed

section \<open>Properties of the embedding client\<close>

lemma embeddingsOf_Inr: "embeddingsOf ds = Inr vs \<longleftrightarrow> ds = map Entry vs"
proof (induction ds arbitrary: vs)
  case Nil
  then show ?case by auto
next
  case (Cons d ds)
  show ?case
  proof (cases d)
    case NullEntry
    then show ?thesis by (cases vs) auto
  next
    case (Entry v)
    show ?thesis
    proof (cases "embeddingsOf ds")
      case (Inl err)
      with Cons.IH have "ds \<noteq> map Entry ws" for ws by auto
      with Inl Entry show ?thesis by (cases vs) auto
    next
      case (Inr ws)
      with Cons.IH [of ws] have "ds = map Entry ws" by simp
      with Inr Entry show ?thesis by (cases vs) (auto simp: inj_on_def)
    qed
  qed
qed

lemma axiosPost_log: "snd (axiosPost jina texts log) = log @ [EmbedPost texts]"
  by (simp add: axiosPost_def split: http_reply.splits)

lemma axiosPost_Inr:
  "fst (axiosPost jina texts log) = Inr body \<longleftrightarrow>
     (\<exists>status. 200 \<le> status \<and> status < 300 \<and> jina (length log) texts = Reply status body)"
  by (auto simp: axiosPost_def split: http_reply.splits)

lemma embedTexts_log: "snd (embedTexts jina texts log) = log @ [EmbedPost texts]"
proof -
  obtain r log' where a: "axiosPost jina texts log = (r, log')"
    by (cases "axiosPost jina texts log")
  with axiosPost_log [of jina texts log] have "log' = log @ [EmbedPost texts]" by simp
  with a show ?thesis by (cases r) (simp_all add: embedTexts_def)
qed

lemma embedTexts_Inr:
  "fst (embedTexts jina texts log) = Inr vs \<longleftrightarrow>
     (\<exists>status. 200 \<le> status \<and> status < 300
        \<and> jina (length log) texts = Reply status (Data (map Entry vs)))"
proof -
  obtain r log' where a: "axiosPost jina texts log = (r, log')"
    by (cases "axiosPost jina texts log")
  show ?thesis
  proof (cases r)
    case (Inl err)
    with a axiosPost_Inr [of jina texts log] have "\<not> (\<exists>status. 200 \<le> status \<and> status < 300
        \<and> jina (length log) texts = Reply status (Data (map Entry vs)))"
      by auto
    with a Inl show ?thesis by (simp add: embedTexts_def)
  next
    case (Inr body)
    with a axiosPost_Inr [of jina texts log body]
    obtain status where st: "200 \<le> status" "status < 300"
      "jina (length log) texts = Reply status body" by auto
    have "fst (embedTexts jina texts log) = readEmbeddings body"
      using a Inr by (simp add: embedTexts_def)
    also have "\<dots> = Inr vs \<longleftrightarrow> body = Data (map Entry vs)"
      by (cases body) (simp_all add: readEmbeddings_def embeddingsOf_Inr)
    finally show ?thesis using st by auto
  qed
qed

lemma embedBatch_embedTexts: "embedBatch jina texts log = embedTexts jina texts log"
  by (simp add: embedBatch_def embedTexts_def)

text \<open>
  Claim C6 (as amended). One call of the embedding client makes exactly one request (no
  retry). It succeeds exactly when the reply has a status in \<open>200..299\<close> and a \<open>data\<close>
  array without \<open>null\<close> entries, and then returns the embeddings of the entries of the
  reply, in the order of the reply: one vector per input, in input order, when the
  service answers with one entry per input. Every other reply (no reply, a status
  outside \<open>200..299\<close>, a missing \<open>data\<close> array, a \<open>null\<close> entry) is an error. The
  length of the reply is not compared with the number of inputs. \<open>embedBatch\<close> of the
  ingestion script behaves identically.
\<close>

theorem embed_client_contract:
  "snd (embedTexts jina texts log) = log @ [EmbedPost texts]
   \<and> ((\<exists>vs. fst (embedTexts jina texts log) = Inr vs \<and> length vs = n) \<longleftrightarrow>
        (\<exists>status vs. 200 \<le> status \<and> status < 300 \<and> length vs = n
           \<and> jina (length log) texts = Reply status (Data (map Entry vs))))
   \<and> (fst (embedTexts jina texts log) = Inr vs \<longleftrightarrow>
        (\<exists>status. 200 \<le> status \<and> status < 300
           \<and> jina (length log) texts = Reply status (Data (map Entry vs))))
   \<and> ((\<exists>err. fst (embedTexts jina texts log) = Inl err) \<longleftrightarrow>
        (\<nexists>status vs. 200 \<le> status \<and> status < 300
           \<and> jina (length log) texts = Reply status (Data (map Entry vs))))
   \<and> embedBatch jina texts log = embedTexts jina texts log"
proof -
  have fails: "(\<exists>err. fst (embedTexts jina texts log) = Inl err) \<longleftrightarrow>
      (\<nexists>vs. fst (embedTexts jina texts log) = Inr vs)"
    by (cases "fst (embedTexts jina texts log)") auto
  show ?thesis
    unfolding fails embedTexts_Inr by (auto simp: embedTexts_log embedBatch_embedTexts)
qed

text \<open>
  Claim C6 as stated fails on a result array shorter than the input list: for two
  input strings and a \<open>200\<close> reply with a single entry, the client returns that single
  vector and no error.
\<close>

theorem embed_short_reply_counterexample:
  "embedTexts (\<lambda>t texts. Reply 200 (Data [Entry (Some (7::nat))])) [''a'', ''b''] [] =
     (Inr [Some 7], [EmbedPost [''a'', ''b'']])
   \<and> embedBatch (\<lambda>t texts. Reply 200 (Data [Entry (Some (7::nat))])) [''a'', ''b''] [] =
     (Inr [Some 7], [EmbedPost [''a'', ''b'']])
   \<and> length [Some (7::nat)] \<noteq> length [''a'', ''b'']"
  by (simp add: embedTexts_def embedBatch_def axiosPost_def readEmbeddings_def)

section \<open>Properties of point ids and of the upsert\<close>

lemma digits_unfold_small: "n < 10 \<Longrightarrow> digits n = [digitChar n]"
  by (subst digits.simps) simp

lemma digits_unfold_large: "\<not> n < 10 \<Longrightarrow> digits n = digits (n div 10) @ [digitChar (n mod 10)]"
  by (subst digits.simps) simp

lemma digits_nonempty: "digits n \<noteq> []"
  by (cases "n < 10") (simp_all add: digits_unfold_small digits_unfold_large)

lemma of_char_digitChar: "d < 10 \<Longrightarrow> of_char (digitChar d) = 48 + d"
  by (simp add: digitChar_def)

lemma digitChar_inj: "a < 10 \<Longrightarrow> b < 10 \<Longrightarrow> digitChar a = digitChar b \<Longrightarrow> a = b"
proof -
  assume a: "a < 10" and b: "b < 10" and eq: "digitChar a = digitChar b"
  from eq have "(of_char (digitChar a) :: nat) = of_char (digitChar b)" by simp
  with a b show "a = b" by (simp add: of_char_digitChar)
qed

lemma digitChar_not_hash: "d < 10 \<Longrightarrow> digitChar d \<noteq> CHR ''#''"
proof
  assume d: "d < 10" and eq: "digitChar d = CHR ''#''"
  from eq have "(of_char (digitChar d) :: nat) = of_char (CHR ''#'')" by simp
  with d show False by (simp add: of_char_digitChar)
qed

lemma hash_notin_digits: "CHR ''#'' \<notin> set (digits n)"
proof (induction n rule: digits.induct)
  case (1 n)
  show ?case
  proof (cases "n < 10")
    case True
    then show ?thesis using digitChar_not_hash [of n] by (auto simp: digits_unfold_small)
  next
    case False
    have "n mod 10 < 10" by simp
    from digitChar_not_hash [OF this] "1.IH" [OF False] False show ?thesis
      by (auto simp: digits_unfold_large)
  qed
qed

lemma digits_inj: "digits n = digits m \<Longrightarrow> n = m"
proof (induction n arbitrary: m rule: digits.induct)
  case (1 n)
  show ?case
  proof (cases "n < 10")
    case True
    then have dn: "digits n = [digitChar n]" by (rule digits_unfold_small)
    have "m < 10"
    proof (rule ccontr)
      assume "\<not> m < 10"
      then have "digits m = digits (m div 10) @ [digitChar (m mod 10)]"
        by (rule digits_unfold_large)
      with dn "1.prems" digits_nonempty [of "m div 10"] show False by simp
    qed
    with True dn "1.prems" show ?thesis
      by (auto simp: digits_unfold_small dest: digitChar_inj)
  next
    case False
    then have dn: "digits n = digits (n div 10) @ [digitChar (n mod 10)]"
      by (rule digits_unfold_large)
    have mlarge: "\<not> m < 10"
    proof
      assume "m < 10"
      then have "digits m = [digitChar m]" by (rule digits_unfold_small)
      with dn "1.prems" digits_nonempty [of "n div 10"] show False by simp
    qed
    then have dm: "digits m = digits (m div 10) @ [digitChar (m mod 10)]"
      by (rule digits_unfold_large)
    from dn dm "1.prems" have front: "digits (n div 10) = digits (m div 10)"
      and units: "digitChar (n mod 10) = digitChar (m mod 10)" by simp_all
    from "1.IH" [OF False front] have "n div 10 = m div 10" .
    moreover from units have "n mod 10 = m mod 10" by (intro digitChar_inj) simp_all
    ultimately have "n div 10 * 10 + n mod 10 = m div 10 * 10 + m mod 10" by simp
    then show ?thesis by (simp only: div_mult_mod_eq)
  qed
qed

lemma takeWhile_until_separator:
  "c \<notin> set xs \<Longrightarrow> takeWhile (\<lambda>x. x \<noteq> c) (xs @ c # zs) = xs"
  by (induction xs) auto

lemma split_at_last_separator:
  assumes "xs @ c # ys = xs' @ c # ys'" and "c \<notin> set ys" and "c \<notin> set ys'"
  shows "xs = xs' \<and> ys = ys'"
proof -
  have "takeWhile (\<lambda>x. x \<noteq> c) (rev (xs @ c # ys)) = rev ys"
    using assms(2) takeWhile_until_separator [of c "rev ys" "rev xs"] by simp
  moreover have "takeWhile (\<lambda>x. x \<noteq> c) (rev (xs' @ c # ys')) = rev ys'"
    using assms(3) takeWhile_until_separator [of c "rev ys'" "rev xs'"] by simp
  ultimately have "ys = ys'" using assms(1) by simp
  with assms(1) show ?thesis by simp
qed

lemma pointKey_inj: "pointKey u1 i1 = pointKey u2 i2 \<longleftrightarrow> u1 = u2 \<and> i1 = i2"
proof
  assume "pointKey u1 i1 = pointKey u2 i2"
  then have "u1 @ CHR ''#'' # digits i1 = u2 @ CHR ''#'' # digits i2"
    by (simp add: pointKey_def)
  from split_at_last_separator [OF this hash_notin_digits hash_notin_digits]
  show "u1 = u2 \<and> i1 = i2" by (auto dest: digits_inj)
qed simp

lemma upsertedIds_append: "upsertedIds (xs @ ys) = upsertedIds xs @ upsertedIds ys"
  by (induction xs rule: upsertedIds.induct) simp_all

lemma enumerate_point_ids:
  "map point_id
     (map (\<lambda>(j, vec).
             \<lparr>point_id = pointId md5 u (i + j), point_vector = vec, payload_url = u,
              payload_title = ti, payload_text = g j\<rparr>)
        (enumerate n vectors)) =
   map (pointId md5 u) [i + n..<i + n + length vectors]"
proof (induction vectors arbitrary: n)
  case Nil
  then show ?case by simp
next
  case (Cons v vectors)
  have "i + n < i + n + length (v # vectors)" by simp
  then have "[i + n..<i + n + length (v # vectors)] =
      (i + n) # [Suc (i + n)..<i + n + length (v # vectors)]"
    by (rule upt_conv_Cons)
  then have "[i + n..<i + n + length (v # vectors)] =
      (i + n) # [i + Suc n..<i + Suc n + length vectors]"
    by simp
  with Cons [of "Suc n"] show ?case by simp
qed

lemma batchPoints_ids:
  "map point_id (batchPoints md5 meta i batch vectors) =
     map (pointId md5 (meta_url meta)) [i..<i + length vectors]"
  unfolding batchPoints_def
  using enumerate_point_ids [of md5 "meta_url meta" i "meta_title meta"
      "\<lambda>j. if j < length batch then Some (batch ! j) else None" 0 vectors]
  by simp

lemma dom_fold_upsert:
  "dom (fold (\<lambda>p c. c(point_id p \<mapsto> p)) points coll) = dom coll \<union> set (map point_id points)"
  by (induction points arbitrary: coll) auto

lemma embedBatch_wellbehaved:
  assumes "jina (length log) texts = Reply 200 (Data (map Entry vs))"
  shows "embedBatch jina texts log = (Inr vs, log @ [EmbedPost texts])"
proof -
  have "embeddingsOf (map Entry vs) = Inr vs" by (simp add: embeddingsOf_Inr)
  with assms show ?thesis
    by (simp add: embedBatch_def axiosPost_def readEmbeddings_def)
qed

text \<open>With an embedding service that answers every request with one entry per text, and
  a vector store that accepts every upsert, the loop hands the ids of the indices
  \<open>i, i + 1, \<dots>\<close> up to the number of chunks to the store, in order.\<close>

lemma upsertLoop_wellbehaved:
  assumes jina: "\<forall>t texts. \<exists>vs. jina t texts = Reply 200 (Data (map Entry vs)) \<and> length vs = length texts"
    and up: "\<forall>t. qdrantUp t"
  shows "\<exists>coll' log'. upsertLoop md5 jina qdrantUp chunks meta i coll log = (Inr (), coll', log')
      \<and> upsertedIds log' = upsertedIds log @ map (pointId md5 (meta_url meta)) [i..<length chunks]
      \<and> dom coll' = dom coll \<union> set (map (pointId md5 (meta_url meta)) [i..<length chunks])"
proof (induction "length chunks - i" arbitrary: i coll log rule: less_induct)
  case less
  let ?pid = "pointId md5 (meta_url meta)"
  show ?case
  proof (cases "i < length chunks")
    case False
    then have "upsertLoop md5 jina qdrantUp chunks meta i coll log = (Inr (), coll, log)"
      by (subst upsertLoop.simps) simp
    with False show ?thesis by simp
  next
    case True
    define batch where "batch = take BATCH (drop i chunks)"
    from jina obtain vs where vs: "jina (length log) batch = Reply 200 (Data (map Entry vs))"
      and len: "length vs = length batch" by blast
    define log1 where "log1 = log @ [EmbedPost batch]"
    define points where "points = batchPoints md5 meta i batch vs"
    define coll2 where "coll2 = fold (\<lambda>p c. c(point_id p \<mapsto> p)) points coll"
    define log2 where "log2 = log1 @ [QdrantUpsert (map point_id points)]"
    have emb: "embedBatch jina batch log = (Inr vs, log1)"
      unfolding log1_def using vs by (rule embedBatch_wellbehaved)
    have ups: "qdrantUpsert qdrantUp points coll log1 = (Inr (), coll2, log2)"
      using up by (simp add: qdrantUpsert_def coll2_def log2_def)
    have step: "upsertLoop md5 jina qdrantUp chunks meta i coll log =
        upsertLoop md5 jina qdrantUp chunks meta (i + BATCH) coll2 log2"
      using True
      by (subst upsertLoop.simps) (simp add: Let_def batch_def [symmetric] emb points_def [symmetric] ups)
    have "length chunks - (i + BATCH) < length chunks - i"
      using True by (simp add: BATCH_def)
    from less [OF this] obtain coll' log' where
      run: "upsertLoop md5 jina qdrantUp chunks meta (i + BATCH) coll2 log2 = (Inr (), coll', log')"
      and ids': "upsertedIds log' = upsertedIds log2 @ map ?pid [i + BATCH..<length chunks]"
      and dom': "dom coll' = dom coll2 \<union> set (map ?pid [i + BATCH..<length chunks])"
      by blast
    have lb: "length batch = min BATCH (length chunks - i)"
      by (simp add: batch_def)
    have pids: "map point_id points = map ?pid [i..<i + length batch]"
      unfolding points_def batchPoints_ids len ..
    have range: "[i..<i + length batch] @ [i + BATCH..<length chunks] = [i..<length chunks]"
    proof (cases "BATCH \<le> length chunks - i")
      case True
      then have "length batch = BATCH" "i + BATCH \<le> length chunks"
        using lb \<open>i < length chunks\<close> by simp_all
      then show ?thesis
        using upt_add_eq_append [of i "i + BATCH" "length chunks - (i + BATCH)"] by simp
    next
      case False
      then have "i + length batch = length chunks" "length chunks \<le> i + BATCH"
        using lb \<open>i < length chunks\<close> by simp_all
      then show ?thesis by simp
    qed
    have "upsertedIds log2 = upsertedIds log @ map ?pid [i..<i + length batch]"
      by (simp add: log2_def log1_def upsertedIds_append pids)
    with ids' have ids: "upsertedIds log' = upsertedIds log @ map ?pid [i..<length chunks]"
      by (simp add: range map_append [symmetric] del: map_append)
    have "dom coll2 = dom coll \<union> set (map ?pid [i..<i + length batch])"
      unfolding coll2_def dom_fold_upsert pids ..
    with dom' have "dom coll' = dom coll \<union> set (map ?pid ([i..<i + length batch] @ [i + BATCH..<length chunks]))"
      by auto
    then have "dom coll' = dom coll \<union> set (map ?pid [i..<length chunks])"
      unfolding range .
    with step run ids show ?thesis by simp
  qed
qed

text \<open>
  Claim C5. The string that is hashed, \<open>url # index\<close>, determines the pair of url and
  index; the id is the MD5 digest of that string and so depends on url and index only.
  Two points of different documents or of different indices hash different strings, so
  they get distinct ids unless MD5 maps those two strings to the same digest: on every
  set of hashed strings on which MD5 has no collision, different pairs get different
  ids, and the ids of one document's chunks are then pairwise distinct. With an
  embedding service that answers with one entry per text and a store that accepts every
  upsert, ingesting the chunks of a document hands the ids of the indices
  \<open>0, \<dots>, n - 1\<close> to the store, whatever the run, the vectors, the collection and the log
  were before; the collection then holds the previous ids and these, so ingesting the
  document again hands over the same sequence of ids and leaves the set of ids in the
  collection unchanged.
\<close>

theorem point_ids_deterministic:
  assumes "\<forall>t texts. \<exists>vs. jina t texts = Reply 200 (Data (map Entry vs)) \<and> length vs = length texts"
    and "\<forall>t texts. \<exists>vs. jina' t texts = Reply 200 (Data (map Entry vs)) \<and> length vs = length texts"
    and "\<forall>t. qdrantUp t" and "\<forall>t. qdrantUp' t"
  shows "(pointKey u1 i1 = pointKey u2 i2 \<longleftrightarrow> u1 = u2 \<and> i1 = i2)
    \<and> pointId md5 u1 i1 = md5 (u1 @ ''#'' @ digits i1)
    \<and> (pointId md5 u1 i1 = pointId md5 u2 i2 \<longleftrightarrow>
         (u1 = u2 \<and> i1 = i2) \<or>
         (pointKey u1 i1 \<noteq> pointKey u2 i2 \<and> md5 (pointKey u1 i1) = md5 (pointKey u2 i2)))
    \<and> (\<forall>K. inj_on md5 K \<and> pointKey u1 i1 \<in> K \<and> pointKey u2 i2 \<in> K \<and> (u1 \<noteq> u2 \<or> i1 \<noteq> i2) \<longrightarrow>
          pointId md5 u1 i1 \<noteq> pointId md5 u2 i2)
    \<and> (inj_on md5 (pointKey (meta_url meta) ` {0..<length chunks}) \<longrightarrow>
          distinct (map (pointId md5 (meta_url meta)) [0..<length chunks]))
    \<and> (\<exists>coll1 log1 coll2 log2.
          upsert md5 jina qdrantUp chunks meta coll log = (Inr (), coll1, log1)
        \<and> upsertedIds log1 = upsertedIds log @ map (pointId md5 (meta_url meta)) [0..<length chunks]
        \<and> dom coll1 = dom coll \<union> set (map (pointId md5 (meta_url meta)) [0..<length chunks])
        \<and> upsert md5 jina' qdrantUp' chunks meta coll1 log1 = (Inr (), coll2, log2)
        \<and> upsertedIds log2 = upsertedIds log1 @ map (pointId md5 (meta_url meta)) [0..<length chunks]
        \<and> dom coll2 = dom coll1)"
proof -
  let ?ids = "map (pointId md5 (meta_url meta)) [0..<length chunks]"
  from upsertLoop_wellbehaved [OF assms(1,3), of md5 chunks meta 0 coll log]
  obtain coll1 log1 where r1: "upsert md5 jina qdrantUp chunks meta coll log = (Inr (), coll1, log1)"
    and i1: "upsertedIds log1 = upsertedIds log @ ?ids"
    and d1: "dom coll1 = dom coll \<union> set ?ids"
    unfolding upsert_def by blast
  from upsertLoop_wellbehaved [OF assms(2,4), of md5 chunks meta 0 coll1 log1]
  obtain coll2 log2 where r2: "upsert md5 jina' qdrantUp' chunks meta coll1 log1 = (Inr (), coll2, log2)"
    and i2: "upsertedIds log2 = upsertedIds log1 @ ?ids"
    and d2: "dom coll2 = dom coll1 \<union> set ?ids"
    unfolding upsert_def by blast
  from d1 d2 have d2': "dom coll2 = dom coll1" by auto
  have key: "pointKey u1 i1 = pointKey u2 i2 \<longleftrightarrow> u1 = u2 \<and> i1 = i2"
    by (rule pointKey_inj)
  have digest: "pointId md5 u1 i1 = md5 (u1 @ ''#'' @ digits i1)"
    by (simp add: pointId_def pointKey_def)
  have ident: "pointId md5 u1 i1 = pointId md5 u2 i2 \<longleftrightarrow>
         (u1 = u2 \<and> i1 = i2) \<or>
         (pointKey u1 i1 \<noteq> pointKey u2 i2 \<and> md5 (pointKey u1 i1) = md5 (pointKey u2 i2))"
    unfolding pointId_def using key by auto
  have apart: "pointId md5 u1 i1 \<noteq> pointId md5 u2 i2"
    if "inj_on md5 K \<and> pointKey u1 i1 \<in> K \<and> pointKey u2 i2 \<in> K \<and> (u1 \<noteq> u2 \<or> i1 \<noteq> i2)" for K
  proof
    assume "pointId md5 u1 i1 = pointId md5 u2 i2"
    then have "md5 (pointKey u1 i1) = md5 (pointKey u2 i2)" by (simp add: pointId_def)
    with that have "pointKey u1 i1 = pointKey u2 i2" by (auto dest: inj_onD)
    with key that show False by blast
  qed
  have run: "distinct ?ids" if inj: "inj_on md5 (pointKey (meta_url meta) ` {0..<length chunks})"
  proof -
    have "inj_on (pointKey (meta_url meta)) {0..<length chunks}"
      by (rule inj_onI) (simp add: pointKey_inj)
    from this inj have "inj_on (md5 \<circ> pointKey (meta_url meta)) {0..<length chunks}"
      by (rule comp_inj_on)
    moreover have "pointId md5 (meta_url meta) = md5 \<circ> pointKey (meta_url meta)"
      by (rule ext) (simp add: pointId_def)
    ultimately have "inj_on (pointId md5 (meta_url meta)) (set [0..<length chunks])"
      by simp
    then show ?thesis by (simp add: distinct_map)
  qed
  from r1 i1 d1 r2 i2 d2' have "\<exists>coll1 log1 coll2 log2.
          upsert md5 jina qdrantUp chunks meta coll log = (Inr (), coll1, log1)
        \<and> upsertedIds log1 = upsertedIds log @ ?ids
        \<and> dom coll1 = dom coll \<union> set ?ids
        \<and> upsert md5 jina' qdrantUp' chunks meta coll1 log1 = (Inr (), coll2, log2)
        \<and> upsertedIds log2 = upsertedIds log1 @ ?ids
        \<and> dom coll2 = dom coll1"
    by blast
  with key digest ident apart run show ?thesis by blast
qed

theorem point_ids_deterministic_witness:
  "(\<forall>(t::nat) (texts::string list). \<exists>vs. (\<lambda>t texts. Reply 200 (Data (map (\<lambda>x. Entry (Some (length x))) texts))) t texts
        = Reply 200 (Data (map Entry vs)) \<and> length vs = length texts)
   \<and> (\<forall>t::nat. (\<lambda>t. True) t)
   \<and> inj_on (\<lambda>s. of_nat (of_char (last s)) :: 128 word) {''https://x/1#0'', ''https://x/1#1''}
   \<and> pointId (\<lambda>s. of_nat (of_char (last s))) ''https://x/1'' 0 \<noteq>
       pointId (\<lambda>s. of_nat (of_char (last s))) ''https://x/1'' 1
   \<and> (\<exists>coll1 log1.
         upsert (\<lambda>s. of_nat (of_char (last s)))
           (\<lambda>t texts. Reply 200 (Data (map (\<lambda>x. Entry (Some (length x))) texts)))
           (\<lambda>t. True) [''c0'', ''c1''] \<lparr>meta_url = ''https://x/1'', meta_title = ''T''\<rparr>
           Map.empty [] = (Inr (), coll1, log1)
       \<and> upsertedIds log1 =
           [pointId (\<lambda>s. of_nat (of_char (last s))) ''https://x/1'' 0,
            pointId (\<lambda>s. of_nat (of_char (last s))) ''https://x/1'' 1])"
proof -
  define jina :: "nat embed_service" where
    "jina = (\<lambda>t texts. Reply 200 (Data (map (\<lambda>x. Entry (Some (length x))) texts)))"
  define md5 :: "string \<Rightarrow> 128 word" where "md5 = (\<lambda>s. of_nat (of_char (last s)))"
  define m where "m = \<lparr>meta_url = ''https://x/1'', meta_title = ''T''\<rparr>"
  define K where "K = {''https://x/1#0'', ''https://x/1#1''}"
  have h: "\<forall>t texts. \<exists>vs. jina t texts = Reply 200 (Data (map Entry vs)) \<and> length vs = length texts"
  proof (intro allI)
    fix t :: nat and texts :: "string list"
    have "jina t texts = Reply 200 (Data (map Entry (map (\<lambda>x. Some (length x)) texts)))"
      by (simp add: jina_def o_def)
    then show "\<exists>vs. jina t texts = Reply 200 (Data (map Entry vs)) \<and> length vs = length texts"
      by (intro exI [of _ "map (\<lambda>x. Some (length x)) texts"]) simp
  qed
  have q: "\<forall>t::nat. (\<lambda>t. True) t" by simp
  have up: "[0..<length [''c0'', ''c1'']] = [0, 1]" by (simp add: upt_rec)
  have k0: "pointKey ''https://x/1'' 0 = ''https://x/1#0''" by code_simp
  have k1: "pointKey ''https://x/1'' 1 = ''https://x/1#1''" by code_simp
  have "md5 ''https://x/1#0'' \<noteq> md5 ''https://x/1#1''" by (simp add: md5_def)
  then have inj: "inj_on md5 K" by (simp add: K_def)
  note t = point_ids_deterministic [OF h h q q, where ?u1.0 = "''https://x/1''" and ?i1.0 = 0
      and ?u2.0 = "''https://x/1''" and ?i2.0 = 1 and ?md5.0 = md5 and ?chunks = "[''c0'', ''c1'']"
      and ?meta = m and ?coll = Map.empty and ?log = "[]"]
  have m0: "pointKey ''https://x/1'' 0 \<in> K" unfolding k0 K_def by simp
  have m1: "pointKey ''https://x/1'' 1 \<in> K" unfolding k1 K_def by simp
  have ne: "''https://x/1'' \<noteq> ''https://x/1'' \<or> (0::nat) \<noteq> 1" by simp
  from inj m0 m1 ne
  have hyp: "inj_on md5 K \<and> pointKey ''https://x/1'' 0 \<in> K \<and> pointKey ''https://x/1'' 1 \<in> K
      \<and> (''https://x/1'' \<noteq> ''https://x/1'' \<or> (0::nat) \<noteq> 1)"
    by (intro conjI)
  from t hyp have apart: "pointId md5 ''https://x/1'' 0 \<noteq> pointId md5 ''https://x/1'' 1"
    by blast
  from t obtain coll1 log1 where
    "upsert md5 jina (\<lambda>t. True) [''c0'', ''c1''] m Map.empty [] = (Inr (), coll1, log1)"
    "upsertedIds log1 = upsertedIds [] @ map (pointId md5 (meta_url m)) [0..<length [''c0'', ''c1'']]"
    by blast
  then have "\<exists>coll1 log1. upsert md5 jina (\<lambda>t. True) [''c0'', ''c1''] m Map.empty [] = (Inr (), coll1, log1)
      \<and> upsertedIds log1 = [pointId md5 ''https://x/1'' 0, pointId md5 ''https://x/1'' 1]"
    unfolding up by (simp add: m_def)
  with h q inj apart show ?thesis unfolding jina_def md5_def m_def K_def by simp
qed

section \<open>Properties of the prompt builder\<close>

lemma buildRagPrompt_shape:
  "buildRagPrompt toFixed query contexts =
     instruction @ ''\<newline>\<newline>Question: '' @ query @ ''\<newline>\<newline>Context:\<newline>''
       @ js_join ''\<newline>\<newline>---\<newline>\<newline>'' (sourceBlocks toFixed contexts)
       @ ''\<newline>\<newline>Answer:''"
  by (simp add: buildRagPrompt_def instruction_def Let_def)

lemma length_sourceBlocks: "length (sourceBlocks toFixed contexts) = length contexts"
  by (simp add: sourceBlocks_def)

lemma nth_sourceBlocks:
  "i < length contexts \<Longrightarrow> sourceBlocks toFixed contexts ! i = sourceBlock toFixed i (contexts ! i)"
  by (simp add: sourceBlocks_def nth_enumerate_eq)

text \<open>
  Claim C9 (as amended). \<open>buildRagPrompt\<close> is a function of the query and the results
  (and of the number formatting \<open>toFixed\<close>). Its value is the instruction to answer only
  from the provided context and to cite with \<open>[S1], [S2], \<dots>\<close>, then the question, then
  one block per result, in input order and joined by a separator line, then \<open>Answer:\<close>.
  There are as many blocks as results, and block \<open>i\<close> (counted from 0) is labelled
  \<open>Source i+1\<close> and holds the score, title, text and url of result \<open>i\<close>.
\<close>

theorem buildRagPrompt_blocks_in_order:
  "buildRagPrompt toFixed query contexts =
     instruction @ ''\<newline>\<newline>Question: '' @ query @ ''\<newline>\<newline>Context:\<newline>''
       @ js_join ''\<newline>\<newline>---\<newline>\<newline>'' (sourceBlocks toFixed contexts)
       @ ''\<newline>\<newline>Answer:''
   \<and> length (sourceBlocks toFixed contexts) = length contexts
   \<and> (\<forall>i < length contexts.
         sourceBlocks toFixed contexts ! i =
           ''Source '' @ digits (i + 1) @ '' ('' @ toFixed (res_score (contexts ! i)) 3 @ ''): ''
             @ res_title (contexts ! i) @ ''\<newline>'' @ res_text (contexts ! i)
             @ ''\<newline>URL: '' @ res_url (contexts ! i))"
proof (intro conjI allI impI)
  show "buildRagPrompt toFixed query contexts =
     instruction @ ''\<newline>\<newline>Question: '' @ query @ ''\<newline>\<newline>Context:\<newline>''
       @ js_join ''\<newline>\<newline>---\<newline>\<newline>'' (sourceBlocks toFixed contexts)
       @ ''\<newline>\<newline>Answer:''"
    by (rule buildRagPrompt_shape)
  show "length (sourceBlocks toFixed contexts) = length contexts"
    by (rule length_sourceBlocks)
  fix i
  assume "i < length contexts"
  then have "sourceBlocks toFixed contexts ! i = sourceBlock toFixed i (contexts ! i)"
    by (rule nth_sourceBlocks)
  then show "sourceBlocks toFixed contexts ! i =
           ''Source '' @ digits (i + 1) @ '' ('' @ toFixed (res_score (contexts ! i)) 3 @ ''): ''
             @ res_title (contexts ! i) @ ''\<newline>'' @ res_text (contexts ! i)
             @ ''\<newline>URL: '' @ res_url (contexts ! i)"
    by (simp only: sourceBlock_def)
qed

theorem buildRagPrompt_blocks_in_order_witness:
  "(1::nat) < length
      [\<lparr>res_score = 81::nat, res_text = ''a1'', res_url = ''u1'', res_title = ''A''\<rparr>,
       \<lparr>res_score = 77, res_text = ''b2'', res_url = ''u2'', res_title = ''B''\<rparr>]
   \<and> sourceBlocks (\<lambda>s n. ''0.'' @ digits s @ ''0'')
        [\<lparr>res_score = 81::nat, res_text = ''a1'', res_url = ''u1'', res_title = ''A''\<rparr>,
         \<lparr>res_score = 77, res_text = ''b2'', res_url = ''u2'', res_title = ''B''\<rparr>] ! 1 =
       ''Source 2 (0.770): B\<newline>b2\<newline>URL: u2''"
proof -
  define rs where "rs =
      [\<lparr>res_score = 81::nat, res_text = ''a1'', res_url = ''u1'', res_title = ''A''\<rparr>,
       \<lparr>res_score = 77, res_text = ''b2'', res_url = ''u2'', res_title = ''B''\<rparr>]"
  have len: "(1::nat) < length rs" by (simp add: rs_def)
  have d2: "digits (1 + 1) = ''2''" by code_simp
  have d77: "digits 77 = ''77''" by code_simp
  from buildRagPrompt_blocks_in_order [of "\<lambda>s n. ''0.'' @ digits s @ ''0''" "''q''" rs] len
  have "sourceBlocks (\<lambda>s n. ''0.'' @ digits s @ ''0'') rs ! 1 =
      ''Source '' @ digits (1 + 1) @ '' ('' @ (''0.'' @ digits (res_score (rs ! 1)) @ ''0'') @ ''): ''
        @ res_title (rs ! 1) @ ''\<newline>'' @ res_text (rs ! 1) @ ''\<newline>URL: '' @ res_url (rs ! 1)"
    by blast
  then have "sourceBlocks (\<lambda>s n. ''0.'' @ digits s @ ''0'') rs ! 1 =
      ''Source 2 (0.770): B\<newline>b2\<newline>URL: u2''"
    unfolding d2 by (simp add: rs_def d77)
  with len show ?thesis unfolding rs_def by simp
qed

text \<open>
  Claim C9 as stated puts the instruction after the blocks. In the prompt for one
  result there is no way to split it into a part before the block, the block, and a
  part after the block that contains the instruction: the instruction stands at the
  beginning, and what follows the block is \<open>Answer:\<close>.
\<close>

lemma sublist_after_position:
  assumes "p = pre @ b @ post" and "sublist ins post"
  shows "\<exists>k. length b \<le> k \<and> k + length ins \<le> length p \<and> prefix ins (drop k p)"
proof -
  from assms(2) obtain ps ss where post: "post = ps @ ins @ ss"
    by (auto simp: sublist_def)
  let ?k = "length (pre @ b @ ps)"
  have "p = (pre @ b @ ps) @ ins @ ss" using assms(1) post by simp
  then have "drop ?k p = ins @ ss" and "length p = ?k + length ins + length ss"
    by simp_all
  then have "length b \<le> ?k" "?k + length ins \<le> length p" "prefix ins (drop ?k p)"
    by simp_all
  then show ?thesis by blast
qed

theorem buildRagPrompt_instruction_first_counterexample:
  "\<not> (\<exists>pre post.
        buildRagPrompt (\<lambda>s n. ''0.810'') ''q''
          [\<lparr>res_score = (), res_text = ''body'', res_url = ''u'', res_title = ''A''\<rparr>] =
          pre @ js_join ''\<newline>\<newline>---\<newline>\<newline>''
                 (sourceBlocks (\<lambda>s n. ''0.810'')
                    [\<lparr>res_score = (), res_text = ''body'', res_url = ''u'', res_title = ''A''\<rparr>])
              @ post
        \<and> sublist instruction post)"
proof
  define p where "p = buildRagPrompt (\<lambda>s n. ''0.810'') ''q''
          [\<lparr>res_score = (), res_text = ''body'', res_url = ''u'', res_title = ''A''\<rparr>]"
  define b where "b = js_join ''\<newline>\<newline>---\<newline>\<newline>''
                 (sourceBlocks (\<lambda>s n. ''0.810'')
                    [\<lparr>res_score = (), res_text = ''body'', res_url = ''u'', res_title = ''A''\<rparr>])"
  assume "\<exists>pre post.
        buildRagPrompt (\<lambda>s n. ''0.810'') ''q''
          [\<lparr>res_score = (), res_text = ''body'', res_url = ''u'', res_title = ''A''\<rparr>] =
          pre @ js_join ''\<newline>\<newline>---\<newline>\<newline>''
                 (sourceBlocks (\<lambda>s n. ''0.810'')
                    [\<lparr>res_score = (), res_text = ''body'', res_url = ''u'', res_title = ''A''\<rparr>])
              @ post
        \<and> sublist instruction post"
  then obtain pre post where "p = pre @ b @ post" and "sublist instruction post"
    unfolding p_def b_def by blast
  from sublist_after_position [OF this] obtain k where
    k: "length b \<le> k" "k + length instruction \<le> length p" "prefix instruction (drop k p)"
    by blast
  have lb: "length b = 31" unfolding b_def by code_simp
  have lp: "length p - length instruction = 64" unfolding p_def by code_simp
  have nowhere: "\<forall>k \<in> set [31..<65]. \<not> prefix instruction (drop k p)"
    unfolding p_def by code_simp
  from k lb lp have "31 \<le> k" and "k < 65" by arith+
  then have "k \<in> {31..<65}" by (simp only: atLeastLessThan_iff)
  then have "k \<in> set [31..<65]" by (simp only: set_upt)
  with nowhere have "\<not> prefix instruction (drop k p)" by (rule bspec)
  from this k(3) show False by (rule notE)
qed

section \<open>Properties of the chat endpoint\<close>

subsection \<open>Session history\<close>

lemma pushHistory_unfold:
  "pushHistory env sessionId r c st =
     (if env_redisUp env (length (st_log st)) then
        (if env_redisUp env (Suc (length (st_log st))) then
           (Inr (),
            st\<lparr>st_redis := (st_redis st)(''session:'' @ sessionId \<mapsto>
                   historyOf st sessionId
                     @ [\<lparr>role = r, content = c, ts = env_now env (Suc (length (st_log st)))\<rparr>]),
               st_log := st_log st @ [RedisGet (''session:'' @ sessionId),
                                      RedisSet (''session:'' @ sessionId)]\<rparr>)
         else
           (Inl redisError,
            st\<lparr>st_log := st_log st @ [RedisGet (''session:'' @ sessionId),
                                      RedisSet (''session:'' @ sessionId)]\<rparr>))
      else (Inl redisError, st\<lparr>st_log := st_log st @ [RedisGet (''session:'' @ sessionId)]\<rparr>))"
  by (simp add: pushHistory_def getHistory_def historyOf_def Let_def)

lemma pushHistory_Inr:
  assumes "pushHistory env sessionId r c st = (Inr u, st')"
  shows "historyOf st' sessionId =
           historyOf st sessionId
             @ [\<lparr>role = r, content = c, ts = env_now env (Suc (length (st_log st)))\<rparr>]"
    and "st_log st' = st_log st @ [RedisGet (''session:'' @ sessionId),
                                   RedisSet (''session:'' @ sessionId)]"
  using assms unfolding pushHistory_unfold
  by (auto simp: historyOf_def split: if_splits)

lemma pushHistory_Inl:
  assumes "pushHistory env sessionId r c st = (Inl err, st')"
  shows "st_redis st' = st_redis st"
    and "st_log st' = st_log st @ [RedisGet (''session:'' @ sessionId)]
       \<or> st_log st' = st_log st @ [RedisGet (''session:'' @ sessionId),
                                    RedisSet (''session:'' @ sessionId)]"
  using assms unfolding pushHistory_unfold
  by (auto split: if_splits)

lemma pushHistory_no_generation:
  assumes "pushHistory env sessionId r c st = (res, st')"
  shows "\<exists>ext. st_log st' = st_log st @ ext \<and> (\<forall>m p. Generate m p \<notin> set ext)"
proof (cases res)
  case (Inl err)
  with pushHistory_Inl(2) [of env sessionId r c st err st'] assms show ?thesis by auto
next
  case (Inr u)
  with pushHistory_Inr(2) [of env sessionId r c st u st'] assms show ?thesis by auto
qed

lemma historyOf_log_update [simp]: "historyOf (st\<lparr>st_log := l\<rparr>) sessionId = historyOf st sessionId"
  by (simp add: historyOf_def)

subsection \<open>Retrieval\<close>

lemma retrieve_no_generation:
  assumes "retrieve env query topK l = (res, l')"
  shows "\<exists>ext. l' = l @ ext \<and> (\<forall>m p. Generate m p \<notin> set ext)"
proof -
  obtain r l1 where e: "embedTexts (env_jina env) [query] l = (r, l1)"
    by (cases "embedTexts (env_jina env) [query] l")
  with embedTexts_log [of "env_jina env" "[query]" l] have l1: "l1 = l @ [EmbedPost [query]]"
    by simp
  show ?thesis
  proof (cases r)
    case (Inl err)
    with e assms l1 show ?thesis by (auto simp: retrieve_def)
  next
    case (Inr vectors)
    with e assms l1 show ?thesis
      by (auto simp: retrieve_def Let_def split: sum.splits)
  qed
qed

lemma retrieve_embedding_fails:
  assumes "embedTexts (env_jina env) [query] l = (Inl err, l1)"
  shows "retrieve env query topK l = (Inl err, l1)"
  using assms by (simp add: retrieve_def)

subsection \<open>The paths of the handler\<close>

lemma trim_Nil: "trim [] = []"
  by (simp add: trim_def)

lemma chatBody_string:
  assumes "req_message req = JStr message" and "trim message \<noteq> []"
  shows "chatBody env req st = answerMessage env (req_sessionId req) message st"
proof -
  from assms(2) have "message \<noteq> []" using trim_Nil by auto
  with assms show ?thesis by (simp add: chatBody_def messageRefused_def)
qed

lemma answerMessage_history_fails:
  assumes "pushHistory env sessionId ''user'' message st = (Inl err, st1)"
  shows "answerMessage env sessionId message st = (Inl (Some err), st1)"
  using assms by (simp add: answerMessage_def)

lemma answerMessage_retrieve_fails:
  assumes "pushHistory env sessionId ''user'' message st = (Inr (), st1)"
    and "retrieve env message 5 (st_log st1) = (Inl err, log2)"
  shows "answerMessage env sessionId message st = (Inl (Some err), st1\<lparr>st_log := log2\<rparr>)"
  using assms by (simp add: answerMessage_def)

lemma answerMessage_no_docs:
  assumes "pushHistory env sessionId ''user'' message st = (Inr (), st1)"
    and "retrieve env message 5 (st_log st1) = (Inr [], log2)"
  shows "answerMessage env sessionId message st =
    (case pushHistory env sessionId ''assistant'' info (st1\<lparr>st_log := log2\<rparr>) of
       (Inl err, st3) \<Rightarrow> (Inl (Some err), st3)
     | (Inr u, st3) \<Rightarrow> (Inr (JsonReply 200 info [] sessionId), st3))"
  using assms by (simp add: answerMessage_def)

lemma answerMessage_docs:
  assumes "pushHistory env sessionId ''user'' message st = (Inr (), st1)"
    and "retrieve env message 5 (st_log st1) = (Inr docs, log2)" and "docs \<noteq> []"
  shows "answerMessage env sessionId message st =
    (case generateWithRetries (env_genAI env) (env_GEMINI_FALLBACK_MODEL env)
            (env_GEMINI_MODEL env) (buildRagPrompt (env_toFixed env) message docs) 4 log2 of
       (Inl lastErr, log3) \<Rightarrow> (Inl lastErr, st1\<lparr>st_log := log3\<rparr>)
     | (Inr reply, log3) \<Rightarrow>
         (case pushHistory env sessionId ''assistant'' reply (st1\<lparr>st_log := log3\<rparr>) of
            (Inl err, st4) \<Rightarrow> (Inl (Some err), st4)
          | (Inr u, st4) \<Rightarrow> (Inr (JsonReply 200 reply (sourcesOf docs) sessionId), st4)))"
  using assms by (simp add: answerMessage_def Let_def)

lemma chatHandler_thrown:
  assumes "chatBody env req st = (Inl err, st')"
  shows "chatHandler env req st = (JsonReply 200 friendly [] (req_sessionId req), st')"
  using assms by (simp add: chatHandler_def)

lemma chatHandler_returned:
  assumes "chatBody env req st = (Inr resp, st')"
  shows "chatHandler env req st = (resp, st')"
  using assms by (simp add: chatHandler_def)

text \<open>What a run of the handler past the guard leaves in the session store, and what it
  answers, once the user's entry has been written.\<close>

lemma answerMessage_outcome:
  assumes push: "pushHistory env sessionId ''user'' message st = (Inr (), st1)"
    and run: "answerMessage env sessionId message st = (res, st')"
  shows "(\<exists>err. res = Inl err \<and> st_redis st' = st_redis st1)
       \<or> (\<exists>reply sources u st2.
             res = Inr (JsonReply 200 reply sources sessionId)
           \<and> st_redis st2 = st_redis st1
           \<and> pushHistory env sessionId ''assistant'' reply st2 = (Inr u, st'))"
proof -
  obtain r log2 where retr: "retrieve env message 5 (st_log st1) = (r, log2)"
    by (cases "retrieve env message 5 (st_log st1)")
  show ?thesis
  proof (cases r)
    case (Inl err)
    with answerMessage_retrieve_fails [OF push] retr run show ?thesis by auto
  next
    case (Inr docs)
    show ?thesis
    proof (cases "docs = []")
      case True
      let ?st2 = "st1\<lparr>st_log := log2\<rparr>"
      obtain r3 st3 where p3: "pushHistory env sessionId ''assistant'' info ?st2 = (r3, st3)"
        by (cases "pushHistory env sessionId ''assistant'' info ?st2")
      show ?thesis
      proof (cases r3)
        case (Inl err)
        with answerMessage_no_docs [OF push] retr Inr True p3 run
        have "res = Inl (Some err)" "st' = st3" by simp_all
        moreover from pushHistory_Inl(1) [of env sessionId "''assistant''" info ?st2 err st3] p3 Inl
        have "st_redis st3 = st_redis st1" by simp
        ultimately show ?thesis by simp
      next
        case (Inr u)
        with answerMessage_no_docs [OF push] retr \<open>r = Inr docs\<close> True p3 run
        have "res = Inr (JsonReply 200 info [] sessionId)" "st' = st3" by simp_all
        moreover have "st_redis ?st2 = st_redis st1" by simp
        ultimately show ?thesis using p3 Inr by blast
      qed
    next
      case False
      let ?prompt = "buildRagPrompt (env_toFixed env) message docs"
      obtain g log3 where gen: "generateWithRetries (env_genAI env) (env_GEMINI_FALLBACK_MODEL env)
            (env_GEMINI_MODEL env) ?prompt 4 log2 = (g, log3)"
        by (cases "generateWithRetries (env_genAI env) (env_GEMINI_FALLBACK_MODEL env)
            (env_GEMINI_MODEL env) ?prompt 4 log2")
      show ?thesis
      proof (cases g)
        case (Inl lastErr)
        with answerMessage_docs [OF push _ False] retr Inr gen run
        have "res = Inl lastErr" "st' = st1\<lparr>st_log := log3\<rparr>" by simp_all
        then show ?thesis by simp
      next
        case (Inr reply)
        let ?st2 = "st1\<lparr>st_log := log3\<rparr>"
        obtain r4 st4 where p4: "pushHistory env sessionId ''assistant'' reply ?st2 = (r4, st4)"
          by (cases "pushHistory env sessionId ''assistant'' reply ?st2")
        show ?thesis
        proof (cases r4)
          case (Inl err)
          with answerMessage_docs [OF push _ False] retr \<open>r = Inr docs\<close> gen \<open>g = Inr reply\<close> p4 run
          have "res = Inl (Some err)" "st' = st4" by simp_all
          moreover from pushHistory_Inl(1) [of env sessionId "''assistant''" reply ?st2 err st4] p4 Inl
          have "st_redis st4 = st_redis st1" by simp
          ultimately show ?thesis by simp
        next
          case (Inr u)
          with answerMessage_docs [OF push _ False] retr \<open>r = Inr docs\<close> gen \<open>g = Inr reply\<close> p4 run
          have "res = Inr (JsonReply 200 reply (sourcesOf docs) sessionId)" "st' = st4"
            by simp_all
          moreover have "st_redis ?st2 = st_redis st1" by simp
          ultimately show ?thesis using p4 Inr by blast
        qed
      qed
    qed
  qed
qed

text \<open>Retrieval begins with the embedding request for the message, and every later step
  of the handler only extends the log: once the user's entry is written, the events of
  the run follow the write of that entry.\<close>

lemma retrieve_log_prefix:
  assumes "retrieve env query topK l = (res, l')"
  shows "\<exists>rest. l' = l @ EmbedPost [query] # rest"
proof -
  obtain r l1 where e: "embedTexts (env_jina env) [query] l = (r, l1)"
    by (cases "embedTexts (env_jina env) [query] l")
  with embedTexts_log [of "env_jina env" "[query]" l] have l1: "l1 = l @ [EmbedPost [query]]"
    by simp
  show ?thesis
  proof (cases r)
    case (Inl err)
    with e assms l1 show ?thesis by (auto simp: retrieve_def)
  next
    case (Inr vectors)
    with e assms l1 show ?thesis
      by (auto simp: retrieve_def Let_def split: sum.splits)
  qed
qed

lemma pushHistory_extends:
  assumes "pushHistory env sessionId r c st = (res, st')"
  shows "\<exists>ext. st_log st' = st_log st @ ext"
  using pushHistory_no_generation [OF assms] by blast

lemma generateWithRetries_extends:
  assumes "generateWithRetries genAI fallbackModel primaryModel prompt maxAttempts l = (r, l')"
  shows "\<exists>ext. l' = l @ ext"
  using assms unfolding generateWithRetries_def Let_def by (rule modelLoop_extends)

lemma answerMessage_log_prefix:
  assumes push: "pushHistory env sessionId ''user'' message st = (Inr (), st1)"
    and run: "answerMessage env sessionId message st = (res, st')"
  shows "\<exists>rest. st_log st' = st_log st1 @ EmbedPost [message] # rest"
proof -
  obtain r log2 where retr: "retrieve env message 5 (st_log st1) = (r, log2)"
    by (cases "retrieve env message 5 (st_log st1)")
  from retrieve_log_prefix [OF retr] obtain rest2 where
    log2: "log2 = st_log st1 @ EmbedPost [message] # rest2" by blast
  show ?thesis
  proof (cases r)
    case (Inl err)
    with answerMessage_retrieve_fails [OF push] retr run have "st' = st1\<lparr>st_log := log2\<rparr>"
      by simp
    with log2 show ?thesis by simp
  next
    case (Inr docs)
    show ?thesis
    proof (cases "docs = []")
      case True
      let ?st2 = "st1\<lparr>st_log := log2\<rparr>"
      obtain r3 st3 where p3: "pushHistory env sessionId ''assistant'' info ?st2 = (r3, st3)"
        by (cases "pushHistory env sessionId ''assistant'' info ?st2")
      from pushHistory_extends [OF p3] obtain ext where "st_log st3 = log2 @ ext" by auto
      moreover from answerMessage_no_docs [OF push] retr Inr True p3 run have "st' = st3"
        by (cases r3) simp_all
      ultimately show ?thesis using log2 by simp
    next
      case False
      let ?prompt = "buildRagPrompt (env_toFixed env) message docs"
      obtain g log3 where gen: "generateWithRetries (env_genAI env) (env_GEMINI_FALLBACK_MODEL env)
            (env_GEMINI_MODEL env) ?prompt 4 log2 = (g, log3)"
        by (cases "generateWithRetries (env_genAI env) (env_GEMINI_FALLBACK_MODEL env)
            (env_GEMINI_MODEL env) ?prompt 4 log2")
      from generateWithRetries_extends [OF gen] obtain ext3 where log3: "log3 = log2 @ ext3"
        by blast
      show ?thesis
      proof (cases g)
        case (Inl lastErr)
        with answerMessage_docs [OF push _ False] retr Inr gen run
        have "st' = st1\<lparr>st_log := log3\<rparr>" by simp
        with log2 log3 show ?thesis by simp
      next
        case (Inr reply)
        let ?st2 = "st1\<lparr>st_log := log3\<rparr>"
        obtain r4 st4 where p4: "pushHistory env sessionId ''assistant'' reply ?st2 = (r4, st4)"
          by (cases "pushHistory env sessionId ''assistant'' reply ?st2")
        from pushHistory_extends [OF p4] obtain ext where "st_log st4 = log3 @ ext" by auto
        moreover from answerMessage_docs [OF push _ False] retr \<open>r = Inr docs\<close> gen Inr p4 run
        have "st' = st4" by (cases r4) simp_all
        ultimately show ?thesis using log2 log3 by simp
      qed
    qed
  qed
qed

lemma historyOf_same_store: "st_redis a = st_redis b \<Longrightarrow> historyOf a sessionId = historyOf b sessionId"
  by (simp add: historyOf_def)

lemma messageRefused_passes:
  assumes "messageRefused v = Inr False"
  shows "\<exists>s. v = JStr s \<and> trim s \<noteq> []"
  using assms by (cases v) (auto simp: messageRefused_def split: if_splits)

lemma chatBody_type_error:
  assumes "messageRefused (req_message req) = Inl err"
  shows "chatBody env req st = (Inl (Some err), st)"
  using assms by (simp add: chatBody_def)

text \<open>
  Claim C7 (as amended). For a request whose message passes the guard, whose user entry
  has been written to the history and whose retrieval returns zero results: the handler
  makes no generation call and answers with status 200 and an empty sources list. The
  reply is the fixed informational text when the assistant's entry is written to the
  history; when that write fails, the error is caught and the reply is the friendly
  error text.
\<close>

theorem chat_empty_retrieval:
  assumes "req_message req = JStr message" and "trim message \<noteq> []"
    and "pushHistory env (req_sessionId req) ''user'' message st = (Inr (), st1)"
    and "retrieve env message 5 (st_log st1) = (Inr [], log2)"
    and "chatHandler env req st = (resp, st')"
  shows "(\<exists>ext. st_log st' = st_log st @ ext \<and> (\<forall>m p. Generate m p \<notin> set ext))
    \<and> (\<exists>reply. resp = JsonReply 200 reply [] (req_sessionId req))
    \<and> (\<forall>st3. pushHistory env (req_sessionId req) ''assistant'' info (st1\<lparr>st_log := log2\<rparr>)
                = (Inr (), st3)
           \<longrightarrow> resp = JsonReply 200 info [] (req_sessionId req) \<and> st' = st3)
    \<and> (\<forall>err st3. pushHistory env (req_sessionId req) ''assistant'' info (st1\<lparr>st_log := log2\<rparr>)
                = (Inl err, st3)
           \<longrightarrow> resp = JsonReply 200 friendly [] (req_sessionId req) \<and> st' = st3)"
proof -
  let ?sid = "req_sessionId req"
  let ?st2 = "st1\<lparr>st_log := log2\<rparr>"
  obtain r3 st3 where p3: "pushHistory env ?sid ''assistant'' info ?st2 = (r3, st3)"
    by (cases "pushHistory env ?sid ''assistant'' info ?st2")
  have body: "chatBody env req st =
      (case r3 of Inl err \<Rightarrow> Inl (Some err) | Inr u \<Rightarrow> Inr (JsonReply 200 info [] ?sid), st3)"
    unfolding chatBody_string [OF assms(1,2)] answerMessage_no_docs [OF assms(3,4)] p3
    by (cases r3) simp_all
  have outcome: "st' = st3"
    "resp = (case r3 of Inl err \<Rightarrow> JsonReply 200 friendly [] ?sid
             | Inr u \<Rightarrow> JsonReply 200 info [] ?sid)"
    using assms(5) body by (cases r3; simp add: chatHandler_def)+
  from pushHistory_Inr(2) [OF assms(3)]
  obtain e1 where l1: "st_log st1 = st_log st @ e1" "\<forall>m p. Generate m p \<notin> set e1" by auto
  from retrieve_no_generation [OF assms(4)]
  obtain e2 where l2: "log2 = st_log st1 @ e2" "\<forall>m p. Generate m p \<notin> set e2" by blast
  from pushHistory_no_generation [OF p3]
  obtain e3 where l3: "st_log st3 = log2 @ e3" "\<forall>m p. Generate m p \<notin> set e3" by auto
  from l1 l2 l3 outcome(1) have "st_log st' = st_log st @ (e1 @ e2 @ e3)"
    and "\<forall>m p. Generate m p \<notin> set (e1 @ e2 @ e3)" by auto
  then have nogen: "\<exists>ext. st_log st' = st_log st @ ext \<and> (\<forall>m p. Generate m p \<notin> set ext)"
    by blast
  have empty: "\<exists>reply. resp = JsonReply 200 reply [] ?sid"
    using outcome(2) by (cases r3) simp_all
  have written: "\<forall>s. pushHistory env ?sid ''assistant'' info ?st2 = (Inr (), s)
      \<longrightarrow> resp = JsonReply 200 info [] ?sid \<and> st' = s"
    using p3 outcome by auto
  have failed: "\<forall>err s. pushHistory env ?sid ''assistant'' info ?st2 = (Inl err, s)
      \<longrightarrow> resp = JsonReply 200 friendly [] ?sid \<and> st' = s"
    using p3 outcome by auto
  from nogen empty written failed show ?thesis by blast
qed

theorem chat_empty_retrieval_witness:
  "trim ''hi'' \<noteq> []
   \<and> fst (chatHandler
        \<lparr>env_redisUp = (\<lambda>t. True), env_now = (\<lambda>t. t),
          env_jina = (\<lambda>t texts. Reply 200 (Data [Entry (Some (0::nat))])),
          env_search = (\<lambda>t v k. Inr ([] :: nat search_hit list)),
          env_genAI = (\<lambda>t m p. Inr ''answer''),
          env_GEMINI_MODEL = ''gemini-1.5-flash'',
          env_GEMINI_FALLBACK_MODEL = ''gemini-1.5-flash-8b'',
          env_toFixed = (\<lambda>s n. digits s)\<rparr>
        \<lparr>req_message = JStr ''hi'', req_sessionId = ''s1''\<rparr>
        \<lparr>st_redis = Map.empty, st_log = []\<rparr>) =
      JsonReply 200 info [] ''s1''"
proof -
  define env :: "(nat, nat) env" where "env =
        \<lparr>env_redisUp = (\<lambda>t. True), env_now = (\<lambda>t. t),
          env_jina = (\<lambda>t texts. Reply 200 (Data [Entry (Some (0::nat))])),
          env_search = (\<lambda>t v k. Inr ([] :: nat search_hit list)),
          env_genAI = (\<lambda>t m p. Inr ''answer''),
          env_GEMINI_MODEL = ''gemini-1.5-flash'',
          env_GEMINI_FALLBACK_MODEL = ''gemini-1.5-flash-8b'',
          env_toFixed = (\<lambda>s n. digits s)\<rparr>"
  define req where "req = \<lparr>req_message = JStr ''hi'', req_sessionId = ''s1''\<rparr>"
  define st0 where "st0 = \<lparr>st_redis = Map.empty, st_log = []\<rparr>"
  define st1 where "st1 = snd (pushHistory env ''s1'' ''user'' ''hi'' st0)"
  define log2 where "log2 = snd (retrieve env ''hi'' 5 (st_log st1))"
  define st3 where "st3 = snd (pushHistory env ''s1'' ''assistant'' info (st1\<lparr>st_log := log2\<rparr>))"
  have valid: "trim ''hi'' \<noteq> []" by (simp add: trim_def jsWhitespace_def)
  have msg: "req_message req = JStr ''hi''" and sid: "req_sessionId req = ''s1''"
    by (simp_all add: req_def)
  have up: "env_redisUp env t" for t by (simp add: env_def)
  have push: "pushHistory env (req_sessionId req) ''user'' ''hi'' st0 = (Inr (), st1)"
    unfolding st1_def sid by (simp add: pushHistory_unfold up)
  have retr: "retrieve env ''hi'' 5 (st_log st1) = (Inr [], log2)"
    unfolding log2_def
    by (simp add: retrieve_def embedTexts_def axiosPost_def readEmbeddings_def env_def)
  have push3: "pushHistory env (req_sessionId req) ''assistant'' info (st1\<lparr>st_log := log2\<rparr>) =
      (Inr (), st3)"
    unfolding st3_def sid by (simp add: pushHistory_unfold up)
  have run: "chatHandler env req st0 = (fst (chatHandler env req st0), snd (chatHandler env req st0))"
    by simp
  from chat_empty_retrieval [OF msg valid push retr run] push3
  have "fst (chatHandler env req st0) = JsonReply 200 info [] (req_sessionId req)"
    by blast
  with valid show ?thesis unfolding env_def req_def st0_def by simp
qed

text \<open>
  Claim C7 as stated fails when the session store stops answering after retrieval: the
  retrieval returns zero results, the write of the informational reply to the history
  throws, and the handler answers with the friendly error text instead.
\<close>

theorem chat_empty_retrieval_counterexample:
  "fst (retrieve
        \<lparr>env_redisUp = (\<lambda>t. t < 4), env_now = (\<lambda>t. t),
          env_jina = (\<lambda>t texts. Reply 200 (Data [Entry (Some (0::nat))])),
          env_search = (\<lambda>t v k. Inr ([] :: nat search_hit list)),
          env_genAI = (\<lambda>t m p. Inr ''answer''),
          env_GEMINI_MODEL = ''gemini-1.5-flash'',
          env_GEMINI_FALLBACK_MODEL = ''gemini-1.5-flash-8b'',
          env_toFixed = (\<lambda>s n. digits s)\<rparr>
        ''hi'' 5 [RedisGet ''session:s1'', RedisSet ''session:s1'']) = Inr []
   \<and> fst (chatHandler
        \<lparr>env_redisUp = (\<lambda>t. t < 4), env_now = (\<lambda>t. t),
          env_jina = (\<lambda>t texts. Reply 200 (Data [Entry (Some (0::nat))])),
          env_search = (\<lambda>t v k. Inr ([] :: nat search_hit list)),
          env_genAI = (\<lambda>t m p. Inr ''answer''),
          env_GEMINI_MODEL = ''gemini-1.5-flash'',
          env_GEMINI_FALLBACK_MODEL = ''gemini-1.5-flash-8b'',
          env_toFixed = (\<lambda>s n. digits s)\<rparr>
        \<lparr>req_message = JStr ''hi'', req_sessionId = ''s1''\<rparr>
        \<lparr>st_redis = Map.empty, st_log = []\<rparr>) =
      JsonReply 200 friendly [] ''s1''
   \<and> st_log (snd (chatHandler
        \<lparr>env_redisUp = (\<lambda>t. t < 4), env_now = (\<lambda>t. t),
          env_jina = (\<lambda>t texts. Reply 200 (Data [Entry (Some (0::nat))])),
          env_search = (\<lambda>t v k. Inr ([] :: nat search_hit list)),
          env_genAI = (\<lambda>t m p. Inr ''answer''),
          env_GEMINI_MODEL = ''gemini-1.5-flash'',
          env_GEMINI_FALLBACK_MODEL = ''gemini-1.5-flash-8b'',
          env_toFixed = (\<lambda>s n. digits s)\<rparr>
        \<lparr>req_message = JStr ''hi'', req_sessionId = ''s1''\<rparr>
        \<lparr>st_redis = Map.empty, st_log = []\<rparr>)) =
      [RedisGet ''session:s1'', RedisSet ''session:s1'', EmbedPost [''hi''], QdrantSearch 5,
       RedisGet ''session:s1'']
   \<and> friendly \<noteq> info"
  by code_simp

text \<open>
  Claim C8. Whatever is thrown inside the handler is answered with status 200, the
  friendly text and an empty sources list; this covers a failed history write, a failed
  embedding request, a failed vector search and a generation that failed on both models.
  A request whose message passes the guard (or makes the guard itself throw) is never
  answered with an error status.
\<close>

theorem chat_errors_become_friendly_reply:
  "(\<forall>err st'. chatBody env req st = (Inl err, st')
       \<longrightarrow> chatHandler env req st = (JsonReply 200 friendly [] (req_sessionId req), st'))
   \<and> (messageRefused (req_message req) \<noteq> Inr True
       \<longrightarrow> (\<exists>reply sources st'.
              chatHandler env req st = (JsonReply 200 reply sources (req_sessionId req), st')))
   \<and> (\<forall>message err st1.
         req_message req = JStr message \<and> trim message \<noteq> []
         \<and> pushHistory env (req_sessionId req) ''user'' message st = (Inl err, st1)
       \<longrightarrow> chatHandler env req st = (JsonReply 200 friendly [] (req_sessionId req), st1))
   \<and> (\<forall>message err st1 log2.
         req_message req = JStr message \<and> trim message \<noteq> []
         \<and> pushHistory env (req_sessionId req) ''user'' message st = (Inr (), st1)
         \<and> (embedTexts (env_jina env) [message] (st_log st1) = (Inl err, log2)
            \<or> retrieve env message 5 (st_log st1) = (Inl err, log2))
       \<longrightarrow> chatHandler env req st =
             (JsonReply 200 friendly [] (req_sessionId req), st1\<lparr>st_log := log2\<rparr>))
   \<and> (\<forall>message st1 docs log2 lastErr log3.
         req_message req = JStr message \<and> trim message \<noteq> []
         \<and> pushHistory env (req_sessionId req) ''user'' message st = (Inr (), st1)
         \<and> retrieve env message 5 (st_log st1) = (Inr docs, log2) \<and> docs \<noteq> []
         \<and> generateWithRetries (env_genAI env) (env_GEMINI_FALLBACK_MODEL env)
               (env_GEMINI_MODEL env) (buildRagPrompt (env_toFixed env) message docs) 4 log2
             = (Inl lastErr, log3)
       \<longrightarrow> chatHandler env req st =
             (JsonReply 200 friendly [] (req_sessionId req), st1\<lparr>st_log := log3\<rparr>))"
proof (intro conjI allI impI)
  fix err st'
  assume "chatBody env req st = (Inl err, st')"
  then show "chatHandler env req st = (JsonReply 200 friendly [] (req_sessionId req), st')"
    by (rule chatHandler_thrown)
next
  assume passes: "messageRefused (req_message req) \<noteq> Inr True"
  let ?sid = "req_sessionId req"
  show "\<exists>reply sources st'. chatHandler env req st = (JsonReply 200 reply sources ?sid, st')"
  proof (cases "messageRefused (req_message req)")
    case (Inl err)
    from chatHandler_thrown [OF chatBody_type_error [OF Inl]] show ?thesis by blast
  next
    case (Inr refused)
    with passes have "messageRefused (req_message req) = Inr False" by (cases refused) simp_all
    from messageRefused_passes [OF this] obtain message where
      m: "req_message req = JStr message" "trim message \<noteq> []" by blast
    obtain res st' where run: "answerMessage env ?sid message st = (res, st')"
      by (cases "answerMessage env ?sid message st")
    then have body: "chatBody env req st = (res, st')"
      by (simp add: chatBody_string [OF m])
    obtain r1 st1 where p1: "pushHistory env ?sid ''user'' message st = (r1, st1)"
      by (cases "pushHistory env ?sid ''user'' message st")
    show ?thesis
    proof (cases res)
      case (Inl err)
      from chatHandler_thrown [OF body [unfolded Inl]] show ?thesis by blast
    next
      case res_ok: (Inr resp)
      show ?thesis
      proof (cases r1)
        case (Inl err)
        from answerMessage_history_fails [OF p1 [unfolded Inl]] run res_ok show ?thesis by simp
      next
        case (Inr u)
        with p1 have "pushHistory env ?sid ''user'' message st = (Inr (), st1)" by simp
        from answerMessage_outcome [OF this run] res_ok
        obtain reply sources where "resp = JsonReply 200 reply sources ?sid" by auto
        with chatHandler_returned [OF body [unfolded res_ok]] show ?thesis by blast
      qed
    qed
  qed
next
  fix message err st1
  assume a: "req_message req = JStr message \<and> trim message \<noteq> []
         \<and> pushHistory env (req_sessionId req) ''user'' message st = (Inl err, st1)"
  then have m: "req_message req = JStr message" "trim message \<noteq> []"
    and p: "pushHistory env (req_sessionId req) ''user'' message st = (Inl err, st1)"
    by simp_all
  have "chatBody env req st = (Inl (Some err), st1)"
    unfolding chatBody_string [OF m] by (rule answerMessage_history_fails [OF p])
  then show "chatHandler env req st = (JsonReply 200 friendly [] (req_sessionId req), st1)"
    by (rule chatHandler_thrown)
next
  fix message err st1 log2
  assume a: "req_message req = JStr message \<and> trim message \<noteq> []
         \<and> pushHistory env (req_sessionId req) ''user'' message st = (Inr (), st1)
         \<and> (embedTexts (env_jina env) [message] (st_log st1) = (Inl err, log2)
            \<or> retrieve env message 5 (st_log st1) = (Inl err, log2))"
  then have m: "req_message req = JStr message" "trim message \<noteq> []"
    and p: "pushHistory env (req_sessionId req) ''user'' message st = (Inr (), st1)"
    by simp_all
  from a have r: "retrieve env message 5 (st_log st1) = (Inl err, log2)"
    using retrieve_embedding_fails by blast
  have "chatBody env req st = (Inl (Some err), st1\<lparr>st_log := log2\<rparr>)"
    unfolding chatBody_string [OF m] by (rule answerMessage_retrieve_fails [OF p r])
  then show "chatHandler env req st =
      (JsonReply 200 friendly [] (req_sessionId req), st1\<lparr>st_log := log2\<rparr>)"
    by (rule chatHandler_thrown)
next
  fix message st1 docs log2 lastErr log3
  assume a: "req_message req = JStr message \<and> trim message \<noteq> []
         \<and> pushHistory env (req_sessionId req) ''user'' message st = (Inr (), st1)
         \<and> retrieve env message 5 (st_log st1) = (Inr docs, log2) \<and> docs \<noteq> []
         \<and> generateWithRetries (env_genAI env) (env_GEMINI_FALLBACK_MODEL env)
               (env_GEMINI_MODEL env) (buildRagPrompt (env_toFixed env) message docs) 4 log2
             = (Inl lastErr, log3)"
  then have m: "req_message req = JStr message" "trim message \<noteq> []"
    and p: "pushHistory env (req_sessionId req) ''user'' message st = (Inr (), st1)"
    and r: "retrieve env message 5 (st_log st1) = (Inr docs, log2)" and d: "docs \<noteq> []"
    and g: "generateWithRetries (env_genAI env) (env_GEMINI_FALLBACK_MODEL env)
               (env_GEMINI_MODEL env) (buildRagPrompt (env_toFixed env) message docs) 4 log2
             = (Inl lastErr, log3)"
    by simp_all
  have "chatBody env req st = (Inl lastErr, st1\<lparr>st_log := log3\<rparr>)"
    unfolding chatBody_string [OF m] answerMessage_docs [OF p r d] g by simp
  then show "chatHandler env req st =
      (JsonReply 200 friendly [] (req_sessionId req), st1\<lparr>st_log := log3\<rparr>)"
    by (rule chatHandler_thrown)
qed

theorem chat_errors_become_friendly_reply_witness:
  "trim ''hi'' \<noteq> []
   \<and> fst (embedTexts (\<lambda>t texts. Reply 500 (NoData :: nat embed_body)) [''hi'']
            [RedisGet ''session:s1'', RedisSet ''session:s1'']) =
       Inl \<lparr>err_status = None, err_response_status = Some 500, err_message = ''Request failed''\<rparr>
   \<and> fst (chatHandler
        \<lparr>env_redisUp = (\<lambda>t. True), env_now = (\<lambda>t. t),
          env_jina = (\<lambda>t texts. Reply 500 (NoData :: nat embed_body)),
          env_search = (\<lambda>t v k. Inr ([] :: nat search_hit list)),
          env_genAI = (\<lambda>t m p. Inr ''answer''),
          env_GEMINI_MODEL = ''gemini-1.5-flash'',
          env_GEMINI_FALLBACK_MODEL = ''gemini-1.5-flash-8b'',
          env_toFixed = (\<lambda>s n. digits s)\<rparr>
        \<lparr>req_message = JStr ''hi'', req_sessionId = ''s1''\<rparr>
        \<lparr>st_redis = Map.empty, st_log = []\<rparr>) =
      JsonReply 200 friendly [] ''s1''"
proof -
  define env :: "(nat, nat) env" where "env =
        \<lparr>env_redisUp = (\<lambda>t. True), env_now = (\<lambda>t. t),
          env_jina = (\<lambda>t texts. Reply 500 (NoData :: nat embed_body)),
          env_search = (\<lambda>t v k. Inr ([] :: nat search_hit list)),
          env_genAI = (\<lambda>t m p. Inr ''answer''),
          env_GEMINI_MODEL = ''gemini-1.5-flash'',
          env_GEMINI_FALLBACK_MODEL = ''gemini-1.5-flash-8b'',
          env_toFixed = (\<lambda>s n. digits s)\<rparr>"
  define req where "req = \<lparr>req_message = JStr ''hi'', req_sessionId = ''s1''\<rparr>"
  define st0 where "st0 = \<lparr>st_redis = Map.empty, st_log = []\<rparr>"
  define st1 where "st1 = snd (pushHistory env ''s1'' ''user'' ''hi'' st0)"
  define e where "e = \<lparr>err_status = None, err_response_status = Some 500,
      err_message = ''Request failed''\<rparr>"
  have valid: "trim ''hi'' \<noteq> []" by (simp add: trim_def jsWhitespace_def)
  have msg: "req_message req = JStr ''hi''" and sid: "req_sessionId req = ''s1''"
    by (simp_all add: req_def)
  have push: "pushHistory env (req_sessionId req) ''user'' ''hi'' st0 = (Inr (), st1)"
    unfolding st1_def sid by (simp add: pushHistory_unfold env_def)
  have l1: "st_log st1 = [RedisGet ''session:s1'', RedisSet ''session:s1'']"
    using pushHistory_Inr(2) [OF push] by (simp add: st0_def sid)
  have emb: "embedTexts (env_jina env) [''hi''] (st_log st1) =
      (Inl e, st_log st1 @ [EmbedPost [''hi'']])"
    by (simp add: embedTexts_def axiosPost_def env_def e_def)
  from chat_errors_become_friendly_reply [of env req st0] msg valid push emb
  have "chatHandler env req st0 =
      (JsonReply 200 friendly [] (req_sessionId req), st1\<lparr>st_log := st_log st1 @ [EmbedPost [''hi'']]\<rparr>)"
    by blast
  then have "fst (chatHandler env req st0) = JsonReply 200 friendly [] ''s1''"
    by (simp add: sid)
  moreover from emb have "fst (embedTexts (\<lambda>t texts. Reply 500 (NoData :: nat embed_body)) [''hi'']
            [RedisGet ''session:s1'', RedisSet ''session:s1'']) = Inl e"
    unfolding l1 by (simp add: env_def)
  ultimately show ?thesis using valid unfolding env_def req_def st0_def e_def by simp
qed

lemma chatBody_refused:
  assumes "messageRefused (req_message req) = Inr True"
  shows "chatBody env req st = (Inr (JsonError 400 ''message is required''), st)"
  using assms by (simp add: chatBody_def)

text \<open>
  Claim C10 (as amended). A request whose message is refused by the guard (a missing,
  null or blank message) is answered with status 400 and leaves the state as it was:
  nothing is appended. A message on which the guard itself throws, and a message whose
  user entry cannot be written, take the error path with the history unchanged: the
  answer is the friendly text and the user's message is not in the history. For a
  request whose message passes the guard and whose user entry is written: the entry is
  appended before retrieval begins (the log of the run is the old log, the read and the
  write of the history, then the embedding request of the retrieval, then the rest);
  when the handler takes the error path, the answer is the friendly text and the history
  is the old one followed by the user's entry, so the friendly text is not appended;
  when the handler returns a reply (the informational one or a generated one), the
  history is the old one followed by the user's entry and the assistant's entry with
  that reply.
\<close>

theorem chat_history_on_paths:
  assumes "chatHandler env req st = (resp, st')"
  shows "(messageRefused (req_message req) = Inr True \<longrightarrow>
            resp = JsonError 400 ''message is required'' \<and> st' = st)
    \<and> (req_message req = JUndefined \<or> req_message req = JNull
          \<or> (\<exists>s. req_message req = JStr s \<and> trim s = []) \<longrightarrow>
            resp = JsonError 400 ''message is required'' \<and> st' = st)
    \<and> (\<forall>err. messageRefused (req_message req) = Inl err \<longrightarrow>
            resp = JsonReply 200 friendly [] (req_sessionId req) \<and> st' = st)
    \<and> (\<forall>message err st1.
          req_message req = JStr message \<and> trim message \<noteq> []
          \<and> pushHistory env (req_sessionId req) ''user'' message st = (Inl err, st1) \<longrightarrow>
            resp = JsonReply 200 friendly [] (req_sessionId req) \<and> st' = st1
          \<and> st_redis st' = st_redis st
          \<and> historyOf st' (req_sessionId req) = historyOf st (req_sessionId req)
          \<and> (\<forall>texts. EmbedPost texts \<notin> set (drop (length (st_log st)) (st_log st'))))
    \<and> (\<forall>message st1.
          req_message req = JStr message \<and> trim message \<noteq> []
          \<and> pushHistory env (req_sessionId req) ''user'' message st = (Inr (), st1) \<longrightarrow>
            historyOf st1 (req_sessionId req) =
              historyOf st (req_sessionId req)
                @ [\<lparr>role = ''user'', content = message, ts = env_now env (Suc (length (st_log st)))\<rparr>]
          \<and> st_log st1 = st_log st @ [RedisGet (''session:'' @ req_sessionId req),
                                       RedisSet (''session:'' @ req_sessionId req)]
          \<and> (\<exists>rest. st_log st' =
                st_log st @ [RedisGet (''session:'' @ req_sessionId req),
                             RedisSet (''session:'' @ req_sessionId req),
                             EmbedPost [message]] @ rest)
          \<and> (\<forall>err. fst (chatBody env req st) = Inl err \<longrightarrow>
                resp = JsonReply 200 friendly [] (req_sessionId req)
              \<and> historyOf st' (req_sessionId req) =
                  historyOf st (req_sessionId req)
                    @ [\<lparr>role = ''user'', content = message,
                         ts = env_now env (Suc (length (st_log st)))\<rparr>])
          \<and> (\<forall>r. fst (chatBody env req st) = Inr r \<longrightarrow>
                resp = r
              \<and> (\<exists>reply sources t.
                    r = JsonReply 200 reply sources (req_sessionId req)
                  \<and> historyOf st' (req_sessionId req) =
                      historyOf st (req_sessionId req)
                        @ [\<lparr>role = ''user'', content = message,
                             ts = env_now env (Suc (length (st_log st)))\<rparr>,
                           \<lparr>role = ''assistant'', content = reply, ts = t\<rparr>])))"
proof -
  let ?sid = "req_sessionId req"
  have refused: "resp = JsonError 400 ''message is required'' \<and> st' = st"
    if "messageRefused (req_message req) = Inr True"
    using chatHandler_returned [OF chatBody_refused [OF that, where env = env and st = st]] assms
    by simp
  have missing: "resp = JsonError 400 ''message is required'' \<and> st' = st"
    if "req_message req = JUndefined \<or> req_message req = JNull
          \<or> (\<exists>s. req_message req = JStr s \<and> trim s = [])"
  proof -
    from that have "messageRefused (req_message req) = Inr True"
      by (auto simp: messageRefused_def)
    then show ?thesis by (rule refused)
  qed
  have guard_throws: "resp = JsonReply 200 friendly [] ?sid \<and> st' = st"
    if "messageRefused (req_message req) = Inl err" for err
    using chatHandler_thrown [OF chatBody_type_error [OF that, where env = env and st = st]] assms
    by simp
  have write_fails: "resp = JsonReply 200 friendly [] ?sid \<and> st' = st1
          \<and> st_redis st' = st_redis st
          \<and> historyOf st' ?sid = historyOf st ?sid
          \<and> (\<forall>texts. EmbedPost texts \<notin> set (drop (length (st_log st)) (st_log st')))"
    if a: "req_message req = JStr message \<and> trim message \<noteq> []
          \<and> pushHistory env ?sid ''user'' message st = (Inl err, st1)" for message err st1
  proof -
    from a have m: "req_message req = JStr message" and v: "trim message \<noteq> []"
      and p: "pushHistory env ?sid ''user'' message st = (Inl err, st1)" by simp_all
    have "chatBody env req st = (Inl (Some err), st1)"
      unfolding chatBody_string [OF m v] by (rule answerMessage_history_fails [OF p])
    from chatHandler_thrown [OF this] assms
    have r: "resp = JsonReply 200 friendly [] ?sid" and s: "st' = st1" by simp_all
    note same = pushHistory_Inl(1) [OF p]
    from pushHistory_Inl(2) [OF p]
    have "\<forall>texts. EmbedPost texts \<notin> set (drop (length (st_log st)) (st_log st1))"
      by auto
    with r s same historyOf_same_store [OF same, of ?sid] show ?thesis by simp
  qed
  have written: "historyOf st1 ?sid =
              historyOf st ?sid
                @ [\<lparr>role = ''user'', content = message, ts = env_now env (Suc (length (st_log st)))\<rparr>]
          \<and> st_log st1 = st_log st @ [RedisGet (''session:'' @ ?sid), RedisSet (''session:'' @ ?sid)]
          \<and> (\<exists>rest. st_log st' =
                st_log st @ [RedisGet (''session:'' @ ?sid), RedisSet (''session:'' @ ?sid),
                             EmbedPost [message]] @ rest)
          \<and> (\<forall>err. fst (chatBody env req st) = Inl err \<longrightarrow>
                resp = JsonReply 200 friendly [] ?sid
              \<and> historyOf st' ?sid =
                  historyOf st ?sid
                    @ [\<lparr>role = ''user'', content = message,
                         ts = env_now env (Suc (length (st_log st)))\<rparr>])
          \<and> (\<forall>r. fst (chatBody env req st) = Inr r \<longrightarrow>
                resp = r
              \<and> (\<exists>reply sources t.
                    r = JsonReply 200 reply sources ?sid
                  \<and> historyOf st' ?sid =
                      historyOf st ?sid
                        @ [\<lparr>role = ''user'', content = message,
                             ts = env_now env (Suc (length (st_log st)))\<rparr>,
                           \<lparr>role = ''assistant'', content = reply, ts = t\<rparr>]))"
    if a: "req_message req = JStr message \<and> trim message \<noteq> []
          \<and> pushHistory env ?sid ''user'' message st = (Inr (), st1)" for message st1
  proof -
    let ?user = "\<lparr>role = ''user'', content = message, ts = env_now env (Suc (length (st_log st)))\<rparr>"
    from a have m: "req_message req = JStr message" and v: "trim message \<noteq> []"
      and p: "pushHistory env ?sid ''user'' message st = (Inr (), st1)" by simp_all
    note h1 = pushHistory_Inr [OF p]
    obtain res where body: "chatBody env req st = (res, st')"
      using assms by (cases "chatBody env req st") (auto simp: chatHandler_def split: sum.splits)
    then have run: "answerMessage env ?sid message st = (res, st')"
      by (simp add: chatBody_string [OF m v])
    note out = answerMessage_outcome [OF p run]
    from answerMessage_log_prefix [OF p run] obtain rest where
      "st_log st' = st_log st1 @ EmbedPost [message] # rest" by blast
    with h1(2) have tie: "\<exists>rest. st_log st' =
        st_log st @ [RedisGet (''session:'' @ ?sid), RedisSet (''session:'' @ ?sid),
                     EmbedPost [message]] @ rest"
      by simp
    have thrown: "resp = JsonReply 200 friendly [] ?sid \<and> historyOf st' ?sid = historyOf st ?sid @ [?user]"
      if "fst (chatBody env req st) = Inl err" for err
    proof -
      from that body have r: "res = Inl err" by simp
      with out have "st_redis st' = st_redis st1" by auto
      then have "historyOf st' ?sid = historyOf st1 ?sid" by (rule historyOf_same_store)
      moreover from chatHandler_thrown [OF body [unfolded r]] assms
      have "resp = JsonReply 200 friendly [] ?sid" by simp
      ultimately show ?thesis using h1(1) by simp
    qed
    have returned: "resp = r \<and> (\<exists>reply sources t. r = JsonReply 200 reply sources ?sid
        \<and> historyOf st' ?sid = historyOf st ?sid @ [?user, \<lparr>role = ''assistant'', content = reply, ts = t\<rparr>])"
      if "fst (chatBody env req st) = Inr r" for r
    proof -
      from that body have r: "res = Inr r" by simp
      with out obtain reply sources u st2 where
        shape: "r = JsonReply 200 reply sources ?sid" and same: "st_redis st2 = st_redis st1"
        and p2: "pushHistory env ?sid ''assistant'' reply st2 = (Inr u, st')"
        by auto
      from pushHistory_Inr(1) [OF p2] historyOf_same_store [OF same, of ?sid] h1(1)
      have "historyOf st' ?sid = historyOf st ?sid
          @ [?user, \<lparr>role = ''assistant'', content = reply, ts = env_now env (Suc (length (st_log st2)))\<rparr>]"
        by simp
      moreover from chatHandler_returned [OF body [unfolded r]] assms have "resp = r" by simp
      ultimately show ?thesis using shape by blast
    qed
    from h1 tie thrown returned show ?thesis by blast
  qed
  from refused missing guard_throws write_fails written show ?thesis by blast
qed

theorem chat_history_on_paths_witness:
  "trim ''hi'' \<noteq> []
   \<and> fst (chatHandler
        \<lparr>env_redisUp = (\<lambda>t. True), env_now = (\<lambda>t. 1000 + t),
          env_jina = (\<lambda>t texts. Reply 500 (NoData :: nat embed_body)),
          env_search = (\<lambda>t v k. Inr ([] :: nat search_hit list)),
          env_genAI = (\<lambda>t m p. Inr ''answer''),
          env_GEMINI_MODEL = ''gemini-1.5-flash'',
          env_GEMINI_FALLBACK_MODEL = ''gemini-1.5-flash-8b'',
          env_toFixed = (\<lambda>s n. digits s)\<rparr>
        \<lparr>req_message = JStr ''hi'', req_sessionId = ''s1''\<rparr>
        \<lparr>st_redis = Map.empty, st_log = []\<rparr>) =
      JsonReply 200 friendly [] ''s1''
   \<and> historyOf (snd (chatHandler
        \<lparr>env_redisUp = (\<lambda>t. True), env_now = (\<lambda>t. 1000 + t),
          env_jina = (\<lambda>t texts. Reply 500 (NoData :: nat embed_body)),
          env_search = (\<lambda>t v k. Inr ([] :: nat search_hit list)),
          env_genAI = (\<lambda>t m p. Inr ''answer''),
          env_GEMINI_MODEL = ''gemini-1.5-flash'',
          env_GEMINI_FALLBACK_MODEL = ''gemini-1.5-flash-8b'',
          env_toFixed = (\<lambda>s n. digits s)\<rparr>
        \<lparr>req_message = JStr ''hi'', req_sessionId = ''s1''\<rparr>
        \<lparr>st_redis = Map.empty, st_log = []\<rparr>)) ''s1'' =
      [\<lparr>role = ''user'', content = ''hi'', ts = 1001\<rparr>]
   \<and> chatHandler
        \<lparr>env_redisUp = (\<lambda>t. True), env_now = (\<lambda>t. 1000 + t),
          env_jina = (\<lambda>t texts. Reply 500 (NoData :: nat embed_body)),
          env_search = (\<lambda>t v k. Inr ([] :: nat search_hit list)),
          env_genAI = (\<lambda>t m p. Inr ''answer''),
          env_GEMINI_MODEL = ''gemini-1.5-flash'',
          env_GEMINI_FALLBACK_MODEL = ''gemini-1.5-flash-8b'',
          env_toFixed = (\<lambda>s n. digits s)\<rparr>
        \<lparr>req_message = JUndefined, req_sessionId = ''s1''\<rparr>
        \<lparr>st_redis = Map.empty, st_log = []\<rparr> =
      (JsonError 400 ''message is required'', \<lparr>st_redis = Map.empty, st_log = []\<rparr>)"
proof -
  define env :: "(nat, nat) env" where "env =
        \<lparr>env_redisUp = (\<lambda>t. True), env_now = (\<lambda>t. 1000 + t),
          env_jina = (\<lambda>t texts. Reply 500 (NoData :: nat embed_body)),
          env_search = (\<lambda>t v k. Inr ([] :: nat search_hit list)),
          env_genAI = (\<lambda>t m p. Inr ''answer''),
          env_GEMINI_MODEL = ''gemini-1.5-flash'',
          env_GEMINI_FALLBACK_MODEL = ''gemini-1.5-flash-8b'',
          env_toFixed = (\<lambda>s n. digits s)\<rparr>"
  define req where "req = \<lparr>req_message = JStr ''hi'', req_sessionId = ''s1''\<rparr>"
  define req0 where "req0 = \<lparr>req_message = JUndefined, req_sessionId = ''s1''\<rparr>"
  define st0 where "st0 = \<lparr>st_redis = Map.empty, st_log = []\<rparr>"
  define st1 where "st1 = snd (pushHistory env ''s1'' ''user'' ''hi'' st0)"
  have valid: "trim ''hi'' \<noteq> []" by (simp add: trim_def jsWhitespace_def)
  have msg: "req_message req = JStr ''hi''" and sid: "req_sessionId req = ''s1''"
    by (simp_all add: req_def)
  have push: "pushHistory env (req_sessionId req) ''user'' ''hi'' st0 = (Inr (), st1)"
    unfolding st1_def sid by (simp add: pushHistory_unfold env_def)
  have retr: "retrieve env ''hi'' 5 (st_log st1) =
      (Inl \<lparr>err_status = None, err_response_status = Some 500, err_message = ''Request failed''\<rparr>,
       st_log st1 @ [EmbedPost [''hi'']])"
    by (simp add: retrieve_def embedTexts_def axiosPost_def env_def)
  have thrown: "fst (chatBody env req st0) =
      Inl (Some \<lparr>err_status = None, err_response_status = Some 500, err_message = ''Request failed''\<rparr>)"
    unfolding chatBody_string [OF msg valid] answerMessage_retrieve_fails [OF push retr] by simp
  have run: "chatHandler env req st0 = (fst (chatHandler env req st0), snd (chatHandler env req st0))"
    by simp
  from msg valid push
  have hyp: "req_message req = JStr ''hi'' \<and> trim ''hi'' \<noteq> []
      \<and> pushHistory env (req_sessionId req) ''user'' ''hi'' st0 = (Inr (), st1)"
    by (intro conjI)
  from chat_history_on_paths [OF run] hyp thrown
  have "fst (chatHandler env req st0) = JsonReply 200 friendly [] (req_sessionId req)
      \<and> historyOf (snd (chatHandler env req st0)) (req_sessionId req) =
          historyOf st0 (req_sessionId req)
            @ [\<lparr>role = ''user'', content = ''hi'', ts = env_now env (Suc (length (st_log st0)))\<rparr>]"
    by blast
  then have first: "fst (chatHandler env req st0) = JsonReply 200 friendly [] ''s1''
      \<and> historyOf (snd (chatHandler env req st0)) ''s1'' =
          [\<lparr>role = ''user'', content = ''hi'', ts = 1001\<rparr>]"
    by (simp add: sid st0_def historyOf_def env_def)
  have run0: "chatHandler env req0 st0 = (fst (chatHandler env req0 st0), snd (chatHandler env req0 st0))"
    by simp
  have missing: "req_message req0 = JUndefined \<or> req_message req0 = JNull
      \<or> (\<exists>s. req_message req0 = JStr s \<and> trim s = [])"
    by (simp add: req0_def)
  from chat_history_on_paths [OF run0] missing
  have "fst (chatHandler env req0 st0) = JsonError 400 ''message is required''
      \<and> snd (chatHandler env req0 st0) = st0"
    by blast
  then have second: "chatHandler env req0 st0 = (JsonError 400 ''message is required'', st0)"
    by (simp add: prod_eq_iff)
  from valid first second show ?thesis unfolding env_def req_def req0_def st0_def by simp
qed

text \<open>
  Claim C10 as stated fails in three ways. When the session store does not answer, the
  write of the user's entry itself throws: the handler takes the error path and the
  history does not contain the user's message. A request whose message is blank, and a
  request with no message at all, are refused with status 400 before anything is
  appended.
\<close>

theorem chat_history_counterexample:
  "fst (chatHandler
        \<lparr>env_redisUp = (\<lambda>t. False), env_now = (\<lambda>t. t),
          env_jina = (\<lambda>t texts. Reply 200 (Data [Entry (Some (0::nat))])),
          env_search = (\<lambda>t v k. Inr ([] :: nat search_hit list)),
          env_genAI = (\<lambda>t m p. Inr ''answer''),
          env_GEMINI_MODEL = ''gemini-1.5-flash'',
          env_GEMINI_FALLBACK_MODEL = ''gemini-1.5-flash-8b'',
          env_toFixed = (\<lambda>s n. digits s)\<rparr>
        \<lparr>req_message = JStr ''hi'', req_sessionId = ''s1''\<rparr>
        \<lparr>st_redis = Map.empty, st_log = []\<rparr>) =
      JsonReply 200 friendly [] ''s1''
   \<and> historyOf (snd (chatHandler
        \<lparr>env_redisUp = (\<lambda>t. False), env_now = (\<lambda>t. t),
          env_jina = (\<lambda>t texts. Reply 200 (Data [Entry (Some (0::nat))])),
          env_search = (\<lambda>t v k. Inr ([] :: nat search_hit list)),
          env_genAI = (\<lambda>t m p. Inr ''answer''),
          env_GEMINI_MODEL = ''gemini-1.5-flash'',
          env_GEMINI_FALLBACK_MODEL = ''gemini-1.5-flash-8b'',
          env_toFixed = (\<lambda>s n. digits s)\<rparr>
        \<lparr>req_message = JStr ''hi'', req_sessionId = ''s1''\<rparr>
        \<lparr>st_redis = Map.empty, st_log = []\<rparr>)) ''s1'' = []
   \<and> fst (chatHandler
        \<lparr>env_redisUp = (\<lambda>t. True), env_now = (\<lambda>t. t),
          env_jina = (\<lambda>t texts. Reply 200 (Data [Entry (Some (0::nat))])),
          env_search = (\<lambda>t v k. Inr ([] :: nat search_hit list)),
          env_genAI = (\<lambda>t m p. Inr ''answer''),
          env_GEMINI_MODEL = ''gemini-1.5-flash'',
          env_GEMINI_FALLBACK_MODEL = ''gemini-1.5-flash-8b'',
          env_toFixed = (\<lambda>s n. digits s)\<rparr>
        \<lparr>req_message = JStr ''  '', req_sessionId = ''s1''\<rparr>
        \<lparr>st_redis = Map.empty, st_log = []\<rparr>) =
      JsonError 400 ''message is required''
   \<and> historyOf (snd (chatHandler
        \<lparr>env_redisUp = (\<lambda>t. True), env_now = (\<lambda>t. t),
          env_jina = (\<lambda>t texts. Reply 200 (Data [Entry (Some (0::nat))])),
          env_search = (\<lambda>t v k. Inr ([] :: nat search_hit list)),
          env_genAI = (\<lambda>t m p. Inr ''answer''),
          env_GEMINI_MODEL = ''gemini-1.5-flash'',
          env_GEMINI_FALLBACK_MODEL = ''gemini-1.5-flash-8b'',
          env_toFixed = (\<lambda>s n. digits s)\<rparr>
        \<lparr>req_message = JStr ''  '', req_sessionId = ''s1''\<rparr>
        \<lparr>st_redis = Map.empty, st_log = []\<rparr>)) ''s1'' = []
   \<and> fst (chatHandler
        \<lparr>env_redisUp = (\<lambda>t. True), env_now = (\<lambda>t. t),
          env_jina = (\<lambda>t texts. Reply 200 (Data [Entry (Some (0::nat))])),
          env_search = (\<lambda>t v k. Inr ([] :: nat search_hit list)),
          env_genAI = (\<lambda>t m p. Inr ''answer''),
          env_GEMINI_MODEL = ''gemini-1.5-flash'',
          env_GEMINI_FALLBACK_MODEL = ''gemini-1.5-flash-8b'',
          env_toFixed = (\<lambda>s n. digits s)\<rparr>
        \<lparr>req_message = JUndefined, req_sessionId = ''s1''\<rparr>
        \<lparr>st_redis = Map.empty, st_log = []\<rparr>) =
      JsonError 400 ''message is required''
   \<and> historyOf (snd (chatHandler
        \<lparr>env_redisUp = (\<lambda>t. True), env_now = (\<lambda>t. t),
          env_jina = (\<lambda>t texts. Reply 200 (Data [Entry (Some (0::nat))])),
          env_search = (\<lambda>t v k. Inr ([] :: nat search_hit list)),
          env_genAI = (\<lambda>t m p. Inr ''answer''),
          env_GEMINI_MODEL = ''gemini-1.5-flash'',
          env_GEMINI_FALLBACK_MODEL = ''gemini-1.5-flash-8b'',
          env_toFixed = (\<lambda>s n. digits s)\<rparr>
        \<lparr>req_message = JUndefined, req_sessionId = ''s1''\<rparr>
        \<lparr>st_redis = Map.empty, st_log = []\<rparr>)) ''s1'' = []"
  by code_simp

end
